theory Spec2Isabelle
  imports Main
begin

section \<open>Strings\<close>

text \<open>
  A Python \<open>str\<close> is a sequence of Unicode code points, so a string is a list of
  code points (natural numbers), and \<open>len\<close> is \<open>length\<close>. \<open>u\<close> embeds an ASCII
  literal.
\<close>

type_synonym ustr = "nat list"

definition u :: "string \<Rightarrow> ustr" where
  "u s = map of_char s"

definition LF :: nat where "LF = 10"
definition CR :: nat where "CR = 13"
definition TAB :: nat where "TAB = 9"
definition SP :: nat where "SP = 32"
definition NBSP :: nat where "NBSP = 160"
definition QUOTE :: nat where "QUOTE = 34"
definition UNDERSCORE :: nat where "UNDERSCORE = 95"

text \<open>\<open>sep.join(xs)\<close>\<close>

fun join :: "ustr \<Rightarrow> ustr list \<Rightarrow> ustr" where
  "join sep [] = []"
| "join sep [x] = x"
| "join sep (x # y # ys) = x @ sep @ join sep (y # ys)"

text \<open>
  The literal the source writes next to the tab in its bullet replacements. In the file
  it is the three code points U+00E2, U+20AC, U+00A2 (what the spec calls the bullet
  glyph).
\<close>

definition BULLET :: ustr where "BULLET = [226, 8364, 162]"

text \<open>
  The characters \<open>str.strip()\<close> removes: those for which \<open>str.isspace()\<close> holds
  (U+0009..U+000D, U+001C..U+0020, U+0085, U+00A0, U+1680, U+2000..U+200A, U+2028,
  U+2029, U+202F, U+205F, U+3000).
\<close>

definition is_space :: "nat \<Rightarrow> bool" where
  "is_space c = ((9 \<le> c \<and> c \<le> 13) \<or> (28 \<le> c \<and> c \<le> 32) \<or> c = 133 \<or> c = 160 \<or> c = 5760
     \<or> (8192 \<le> c \<and> c \<le> 8202) \<or> c = 8232 \<or> c = 8233 \<or> c = 8239 \<or> c = 8287 \<or> c = 12288)"

definition strip :: "ustr \<Rightarrow> ustr" where
  "strip s = rev (dropWhile is_space (rev (dropWhile is_space s)))"

text \<open>A string with no leading and no trailing whitespace.\<close>

definition stripped :: "ustr \<Rightarrow> bool" where
  "stripped s = (s = [] \<or> (\<not> is_space (hd s) \<and> \<not> is_space (last s)))"

text \<open>
  \<open>s.replace(old, new)\<close>: the occurrences of \<open>old\<close> are replaced from left to right,
  without overlap; an empty \<open>old\<close> matches before every character and at the end.
\<close>

fun replace :: "ustr \<Rightarrow> ustr \<Rightarrow> ustr \<Rightarrow> ustr" where
  "replace old new [] = (if old = [] then new else [])"
| "replace old new (c # cs) =
     (if old = [] then new @ c # replace old new cs
      else if take (length old) (c # cs) = old
        then new @ replace old new (drop (length old) (c # cs))
      else c # replace old new cs)"

text \<open>\<open>old in s\<close> on strings: \<open>old\<close> occurs in \<open>s\<close> as a substring.\<close>

fun occurs :: "ustr \<Rightarrow> ustr \<Rightarrow> bool" where
  "occurs old [] = (old = [])"
| "occurs old (c # cs) = (take (length old) (c # cs) = old \<or> occurs old cs)"

section \<open>Text normalizer: \<open>clean_text\<close>\<close>

text \<open>Line 60: \<open>s.replace("\r\n", "\n").replace("\r", "\n")\<close>.\<close>

definition normalize_line_endings :: "ustr \<Rightarrow> ustr" where
  "normalize_line_endings s = replace [CR] [LF] (replace [CR, LF] [LF] s)"

text \<open>Lines 61 and 62: the four replacements on tabs and the bullet literal.\<close>

definition standardize_tabs_bullets :: "ustr \<Rightarrow> ustr" where
  "standardize_tabs_bullets s =
     (let s = replace [TAB] (u ''    '') (replace (TAB # BULLET) BULLET s)
      in replace (BULLET @ [SP, SP]) (BULLET @ [SP]) (replace (BULLET @ [TAB]) (BULLET @ [SP]) s))"

text \<open>
  Line 64, \<open>re.sub(r'""+$', '"', t)\<close>. \<open>$\<close> matches at the end of the string and just
  before a line feed that ends the string, so the pattern matches a run of two or more
  quotes that ends there (the leftmost match is the whole run, \<open>+\<close> being greedy), and
  the run becomes one quote.
\<close>

definition trailing_quotes :: "ustr \<Rightarrow> nat" where
  "trailing_quotes s = length (takeWhile (\<lambda>c. c = QUOTE) (rev s))"

definition sub_trailing_quotes :: "ustr \<Rightarrow> ustr" where
  "sub_trailing_quotes t =
     (let body = (if t \<noteq> [] \<and> last t = LF then butlast t else t);
          n = trailing_quotes body
      in if 2 \<le> n then take (length body - n) body @ [QUOTE] @ drop (length body) t else t)"

text \<open>
  Line 65, \<open>re.sub(r"\n{3,}", "\n\n", s)\<close>: scanning from the left, a run of three or
  more line feeds is matched whole and becomes two.
\<close>

function collapse_newlines :: "ustr \<Rightarrow> ustr" where
  "collapse_newlines [] = []"
| "collapse_newlines (c # cs) =
     (if take 3 (c # cs) = [LF, LF, LF]
      then [LF, LF] @ collapse_newlines (dropWhile (\<lambda>x. x = LF) cs)
      else c # collapse_newlines cs)"
  by pat_completeness auto
termination
  by (relation "measure length") (auto simp: less_Suc_eq_le length_dropWhile_le)

text \<open>
  The value of \<open>s\<close> after line 64. \<open>unicodedata.normalize("NFKC", _)\<close> is the
  standard library's; the model takes it as the parameter \<open>nfkc\<close>.
\<close>

definition pre_collapse :: "(ustr \<Rightarrow> ustr) \<Rightarrow> ustr \<Rightarrow> ustr" where
  "pre_collapse nfkc s =
     (let s = nfkc s;
          s = normalize_line_endings s;
          s = standardize_tabs_bullets s;
          s = replace [NBSP] [SP] s
      in sub_trailing_quotes (strip s))"

text \<open>\<open>clean_text(s)\<close>; \<open>None\<close> is Python's \<open>None\<close>.\<close>

definition clean_text :: "(ustr \<Rightarrow> ustr) \<Rightarrow> ustr option \<Rightarrow> ustr" where
  "clean_text nfkc s0 =
     (case s0 of
        None \<Rightarrow> []
      | Some s \<Rightarrow> strip (collapse_newlines (pre_collapse nfkc s)))"

section \<open>Filename sanitizer: \<open>sanitize_filename\<close>\<close>

text \<open>
  The characters the class \<open>[^\w\-. ]\<close> leaves alone. \<open>\w\<close> on a \<open>str\<close> pattern is
  the underscore and every character Unicode counts as alphanumeric; that table is the
  regex library's, taken as the parameter \<open>isalnum\<close>.
\<close>

definition keep_char :: "(nat \<Rightarrow> bool) \<Rightarrow> nat \<Rightarrow> bool" where
  "keep_char isalnum c = (isalnum c \<or> c = UNDERSCORE \<or> c = 45 \<or> c = 46 \<or> c = SP)"

text \<open>\<open>re.sub(r"[^\w\-. ]+", "_", title)\<close>: each maximal run of other characters
  becomes one underscore.\<close>

function sub_unsafe :: "(nat \<Rightarrow> bool) \<Rightarrow> ustr \<Rightarrow> ustr" where
  "sub_unsafe isalnum [] = []"
| "sub_unsafe isalnum (c # cs) =
     (if keep_char isalnum c then c # sub_unsafe isalnum cs
      else UNDERSCORE # sub_unsafe isalnum (dropWhile (\<lambda>x. \<not> keep_char isalnum x) cs))"
  by pat_completeness auto
termination
  by (relation "measure (\<lambda>(isalnum, s). length s)") (auto simp: less_Suc_eq_le length_dropWhile_le)

text \<open>The slice \<open>s[:n]\<close>: a negative \<open>n\<close> counts from the end.\<close>

definition slice_to :: "int \<Rightarrow> 'a list \<Rightarrow> 'a list" where
  "slice_to n s = (if 0 \<le> n then take (nat n) s else take (nat (int (length s) + n)) s)"

definition sanitize_filename :: "(nat \<Rightarrow> bool) \<Rightarrow> ustr \<Rightarrow> int \<Rightarrow> ustr" where
  "sanitize_filename isalnum title max_length =
     (let safe = strip (slice_to max_length (sub_unsafe isalnum title))
      in if safe \<noteq> [] then safe else u ''conversation'')"

text \<open>Alphanumeric among the ASCII characters, for concrete runs on ASCII titles.\<close>

definition ascii_alnum :: "nat \<Rightarrow> bool" where
  "ascii_alnum c = ((48 \<le> c \<and> c \<le> 57) \<or> (65 \<le> c \<and> c \<le> 90) \<or> (97 \<le> c \<and> c \<le> 122))"

section \<open>Pair builder: \<open>messages_to_pairs\<close>\<close>

text \<open>
  A message is the dict \<open>{"role": ..., "text": ...}\<close> the extractor builds, a pair
  the dict \<open>{"prompt": ..., "completion": ...}\<close>.
\<close>

record message =
  role :: ustr
  text' :: ustr

record pair =
  prompt :: ustr
  completion :: ustr

text \<open>
  One round of the \<open>for m in messages\<close> loop, on the loop's state
  \<open>(pairs, buffer_user)\<close>.
\<close>

definition pairs_step :: "pair list \<times> ustr list \<Rightarrow> message \<Rightarrow> pair list \<times> ustr list" where
  "pairs_step st m =
     (case st of (pairs, buffer_user) \<Rightarrow>
        if role m = u ''user'' then
          (if text' m \<noteq> [] then (pairs, buffer_user @ [text' m]) else (pairs, buffer_user))
        else
          (if buffer_user \<noteq> [] \<and> text' m \<noteq> [] then
             (let prompt = join (u ''\<newline>\<newline>'') buffer_user;
                  completion = text' m
              in if prompt \<noteq> [] \<and> completion \<noteq> []
                 then (pairs @ [\<lparr>prompt = prompt, completion = completion\<rparr>], [])
                 else (pairs, []))
           else (pairs, [])))"

definition messages_to_pairs :: "message list \<Rightarrow> pair list" where
  "messages_to_pairs messages = fst (foldl pairs_step ([], []) messages)"


section \<open>Python values\<close>

text \<open>
  The values \<open>json.loads\<close> builds, which is what a conversation is made of: \<open>None\<close>,
  booleans, integers, strings, lists and dicts with string keys. A dict is an
  association list with distinct keys, looked up with \<open>map_of\<close>; its order is the
  dict's iteration order. Floats are left out: to the extractor a float is one more value that is neither a
  string nor a dict.
\<close>

datatype pyval =
    PNone
  | PBool bool
  | PInt int
  | PStr ustr
  | PList "pyval list"
  | PDict "(ustr \<times> pyval) list"

text \<open>The exceptions the extractor's operations can raise.\<close>

datatype exc = AttributeError | TypeError | IndexError | KeyError

text \<open>\<open>bool(x)\<close>, the test behind \<open>if x\<close>, \<open>not x\<close> and \<open>x or y\<close>.\<close>

fun truthy :: "pyval \<Rightarrow> bool" where
  "truthy PNone = False"
| "truthy (PBool b) = b"
| "truthy (PInt i) = (i \<noteq> 0)"
| "truthy (PStr s) = (s \<noteq> [])"
| "truthy (PList xs) = (xs \<noteq> [])"
| "truthy (PDict d) = (d \<noteq> [])"

text \<open>Lists and dicts cannot be hashed: they are refused as dict keys and set members.\<close>

fun hashable :: "pyval \<Rightarrow> bool" where
  "hashable (PList xs) = False"
| "hashable (PDict d) = False"
| "hashable v = True"

text \<open>\<open>x == y\<close>. \<open>True == 1\<close> and \<open>False == 0\<close>; dicts are equal when they have the same
  items, whatever their order.\<close>

fun py_eq :: "pyval \<Rightarrow> pyval \<Rightarrow> bool"
  and py_eq_list :: "pyval list \<Rightarrow> pyval list \<Rightarrow> bool"
  and py_sub_dict :: "(ustr \<times> pyval) list \<Rightarrow> (ustr \<times> pyval) list \<Rightarrow> bool"
  and py_has_item :: "ustr \<Rightarrow> pyval \<Rightarrow> (ustr \<times> pyval) list \<Rightarrow> bool" where
  "py_eq PNone PNone = True"
| "py_eq (PBool a) (PBool b) = (a = b)"
| "py_eq (PBool a) (PInt j) = ((if a then 1 else 0) = j)"
| "py_eq (PInt i) (PBool b) = (i = (if b then 1 else 0))"
| "py_eq (PInt i) (PInt j) = (i = j)"
| "py_eq (PStr s) (PStr t) = (s = t)"
| "py_eq (PList xs) (PList ys) = py_eq_list xs ys"
| "py_eq (PDict a) (PDict b) = (length a = length b \<and> py_sub_dict a b)"
| "py_eq _ _ = False"
| "py_eq_list [] [] = True"
| "py_eq_list (x # xs) (y # ys) = (py_eq x y \<and> py_eq_list xs ys)"
| "py_eq_list _ _ = False"
| "py_sub_dict [] b = True"
| "py_sub_dict ((k, v) # a) b = (py_has_item k v b \<and> py_sub_dict a b)"
| "py_has_item k v [] = False"
| "py_has_item k v ((k', v') # b) = (if k = k' then py_eq v v' else py_has_item k v b)"


text \<open>\<open>x or dflt\<close>\<close>

definition py_or :: "pyval \<Rightarrow> pyval \<Rightarrow> pyval" where
  "py_or x dflt = (if truthy x then x else dflt)"

text \<open>\<open>x.get(k, dflt)\<close>: only a dict has the method.\<close>

definition py_get :: "pyval \<Rightarrow> ustr \<Rightarrow> pyval \<Rightarrow> exc + pyval" where
  "py_get x k dflt =
     (case x of
        PDict d \<Rightarrow> Inr (case map_of d k of None \<Rightarrow> dflt | Some v \<Rightarrow> v)
      | _ \<Rightarrow> Inl AttributeError)"

text \<open>
  \<open>x in c\<close>: a key lookup in a dict (the key is hashed first), an equality search in a
  list, a substring test in a string (whose left operand must be a string).
\<close>

definition py_contains :: "pyval \<Rightarrow> pyval \<Rightarrow> exc + bool" where
  "py_contains x c =
     (case c of
        PDict d \<Rightarrow>
          if hashable x then Inr (case x of PStr k \<Rightarrow> map_of d k \<noteq> None | _ \<Rightarrow> False)
          else Inl TypeError
      | PList xs \<Rightarrow> Inr (list_ex (py_eq x) xs)
      | PStr s \<Rightarrow> (case x of PStr t \<Rightarrow> Inr (occurs t s) | _ \<Rightarrow> Inl TypeError)
      | _ \<Rightarrow> Inl TypeError)"

text \<open>\<open>x in seen\<close> for the set \<open>seen\<close>, kept as the list of its members, latest first.\<close>

definition in_seen :: "pyval \<Rightarrow> pyval list \<Rightarrow> exc + bool" where
  "in_seen x seen = (if hashable x then Inr (list_ex (py_eq x) seen) else Inl TypeError)"

text \<open>
  \<open>xs[i]\<close> on a sequence of length \<open>n\<close>: the indices \<open>0 .. n - 1\<close> read from the front,
  the indices \<open>-n .. -1\<close> from the end, every other index raises.
\<close>

definition list_index :: "'a list \<Rightarrow> int \<Rightarrow> exc + 'a" where
  "list_index xs i =
     (if 0 \<le> i \<and> i < int (length xs) then Inr (xs ! nat i)
      else if - int (length xs) \<le> i \<and> i < 0 then Inr (xs ! nat (int (length xs) + i))
      else Inl IndexError)"

text \<open>The values a sequence accepts as an index: integers, and booleans as 0 and 1.\<close>

definition as_index :: "pyval \<Rightarrow> int option" where
  "as_index x = (case x of PInt i \<Rightarrow> Some i | PBool b \<Rightarrow> Some (if b then 1 else 0) | _ \<Rightarrow> None)"

text \<open>\<open>c[x]\<close>\<close>

definition py_getitem :: "pyval \<Rightarrow> pyval \<Rightarrow> exc + pyval" where
  "py_getitem c x =
     (case c of
        PDict d \<Rightarrow>
          if hashable x then
            (case x of
               PStr k \<Rightarrow> (case map_of d k of Some v \<Rightarrow> Inr v | None \<Rightarrow> Inl KeyError)
             | _ \<Rightarrow> Inl KeyError)
          else Inl TypeError
      | PList xs \<Rightarrow>
          (case as_index x of Some i \<Rightarrow> list_index xs i | None \<Rightarrow> Inl TypeError)
      | PStr s \<Rightarrow>
          (case as_index x of
             Some i \<Rightarrow> (case list_index s i of Inl e \<Rightarrow> Inl e | Inr ch \<Rightarrow> Inr (PStr [ch]))
           | None \<Rightarrow> Inl TypeError)
      | _ \<Rightarrow> Inl TypeError)"

text \<open>
  What the traversal can still visit: the members of the mapping that equal no member
  of \<open>seen\<close>. Their number decreases at every round of the loop.
\<close>

definition candidates :: "pyval \<Rightarrow> pyval list" where
  "candidates mapping =
     (case mapping of PDict d \<Rightarrow> map (\<lambda>kv. PStr (fst kv)) d | PList xs \<Rightarrow> xs | _ \<Rightarrow> [])"

definition unseen :: "pyval \<Rightarrow> pyval list \<Rightarrow> nat" where
  "unseen mapping seen = length (filter (\<lambda>x. \<not> list_ex (py_eq x) seen) (candidates mapping))"

lemma py_eq_hashable:
  "hashable c \<Longrightarrow> py_eq c x \<Longrightarrow> py_eq x c \<and> py_eq x y = py_eq c y"
  by (cases c; cases x; cases y) (auto split: if_splits)

lemma filter_length_less:
  assumes "x \<in> set xs" "P x" "\<not> Q x" "\<And>y. Q y \<Longrightarrow> P y"
  shows "length (filter Q xs) < length (filter P xs)"
proof -
  have "filter Q (filter P xs) = filter Q xs"
    using assms(4) by (induction xs) auto
  moreover have "x \<in> set (filter P xs)" using assms(1,2) by simp
  then have "length (filter Q (filter P xs)) < length (filter P xs)"
    using assms(3) by (rule length_filter_less)
  ultimately show ?thesis by simp
qed

lemma unseen_decreases:
  assumes c: "py_contains current mapping = Inr True"
    and s: "in_seen current seen = Inr False"
    and g: "py_getitem mapping current = Inr node"
  shows "unseen mapping (current # seen) < unseen mapping seen"
proof -
  have h: "hashable current" using s by (simp add: in_seen_def split: if_splits)
  have ns: "\<not> list_ex (py_eq current) seen" using s by (simp add: in_seen_def split: if_splits)
  have "\<exists>x \<in> set (candidates mapping). py_eq current x"
  proof (cases mapping)
    case (PDict d)
    with c h obtain k where k: "current = PStr k" "map_of d k \<noteq> None"
      by (cases current) (simp_all add: py_contains_def)
    then have "k \<in> fst ` set d" by (simp add: map_of_eq_None_iff)
    then have "PStr k \<in> set (candidates mapping)" using PDict by (auto simp: candidates_def)
    then show ?thesis using k(1) by (intro bexI [of _ "PStr k"]) simp_all
  next
    case (PList xs)
    with c show ?thesis by (simp add: py_contains_def candidates_def list_ex_iff)
  next
    case (PStr m)
    with c obtain t where "current = PStr t" by (cases current) (simp_all add: py_contains_def)
    then have "py_getitem mapping current = Inl TypeError"
      using PStr by (simp add: py_getitem_def as_index_def)
    with g show ?thesis by simp
  qed (use c in \<open>simp_all add: py_contains_def\<close>)
  then obtain x where x: "x \<in> set (candidates mapping)" "py_eq current x" by blast
  have xe1: "py_eq x current" using py_eq_hashable [OF h x(2)] by blast
  have xe2: "py_eq x y = py_eq current y" for y using py_eq_hashable [OF h x(2), of y] by blast
  let ?P = "\<lambda>x. \<not> list_ex (py_eq x) seen"
  let ?Q = "\<lambda>x. \<not> list_ex (py_eq x) (current # seen)"
  have p: "?P x" using ns by (simp add: list_ex_iff xe2)
  have q: "\<not> ?Q x" using xe1 by simp
  have "length (filter ?Q (candidates mapping)) < length (filter ?P (candidates mapping))"
    using x(1) p q by (rule filter_length_less) simp
  then show ?thesis by (simp only: unseen_def)
qed


section \<open>Message extractor: \<open>extract_messages_from_mapping\<close>\<close>

text \<open>
  Lines 89 to 93, the loop
  \<open>while current and current in mapping and current not in seen\<close>, on its state
  \<open>(current, seen, ordered_nodes)\<close>. The result is the final \<open>seen\<close> (latest first) and
  \<open>ordered_nodes\<close>, or the exception a round raises.
\<close>

function walk :: "pyval \<Rightarrow> pyval \<Rightarrow> pyval list \<Rightarrow> pyval list \<Rightarrow> exc + (pyval list \<times> pyval list)" where
  "walk mapping current seen ordered_nodes =
     (if \<not> truthy current then Inr (seen, ordered_nodes)
      else case py_contains current mapping of
        Inl e \<Rightarrow> Inl e
      | Inr present \<Rightarrow>
          if \<not> present then Inr (seen, ordered_nodes)
          else case in_seen current seen of
            Inl e \<Rightarrow> Inl e
          | Inr visited \<Rightarrow>
              if visited then Inr (seen, ordered_nodes)
              else case py_getitem mapping current of
                Inl e \<Rightarrow> Inl e
              | Inr node \<Rightarrow>
                  (case py_get node (u ''parent'') PNone of
                     Inl e \<Rightarrow> Inl e
                   | Inr parent \<Rightarrow> walk mapping parent (current # seen) (ordered_nodes @ [node])))"
  by pat_completeness auto
termination
proof (relation "measure (\<lambda>(mapping, current, seen, ordered_nodes). unseen mapping seen)")
  show "wf (measure (\<lambda>(mapping, current, seen, ordered_nodes). unseen mapping seen))" by simp
next
  fix mapping current seen and ordered_nodes :: "pyval list" and present visited node parent
  assume "py_contains current mapping = Inr present" "\<not> \<not> present"
    "in_seen current seen = Inr visited" "\<not> visited"
    "py_getitem mapping current = Inr node"
  then have "unseen mapping (current # seen) < unseen mapping seen"
    by (intro unseen_decreases [of current mapping seen node]) simp_all
  then show "((mapping, parent, current # seen, ordered_nodes @ [node]),
       (mapping, current, seen, ordered_nodes))
      \<in> measure (\<lambda>(mapping, current, seen, ordered_nodes). unseen mapping seen)"
    by simp
qed

declare walk.simps [simp del]

text \<open>\<open>for p in x\<close>: the items of a list, the characters of a string, the keys of a dict.\<close>

definition iter_values :: "pyval \<Rightarrow> exc + pyval list" where
  "iter_values x =
     (case x of
        PList xs \<Rightarrow> Inr xs
      | PStr s \<Rightarrow> Inr (map (\<lambda>c. PStr [c]) s)
      | PDict d \<Rightarrow> Inr (map (\<lambda>kv. PStr (fst kv)) d)
      | _ \<Rightarrow> Inl TypeError)"

text \<open>\<open>p.get(k)\<close> on a dict.\<close>

definition dict_get :: "(ustr \<times> pyval) list \<Rightarrow> ustr \<Rightarrow> pyval" where
  "dict_get d k = (case map_of d k of None \<Rightarrow> PNone | Some v \<Rightarrow> v)"

text \<open>Lines 124 to 130: what one part appends to \<open>chunks\<close>.\<close>

definition collect_chunk :: "pyval \<Rightarrow> pyval list" where
  "collect_chunk p =
     (case p of
        PStr s \<Rightarrow> if strip s \<noteq> [] then [p] else []
      | PDict d \<Rightarrow>
          if truthy (dict_get d (u ''text'')) then [dict_get d (u ''text'')]
          else if py_eq (dict_get d (u ''content_type'')) (PStr (u ''audio_transcription''))
                  \<and> truthy (dict_get d (u ''text''))
            then [dict_get d (u ''text'')]
          else []
      | _ \<Rightarrow> [])"

text \<open>\<open>sep.join(chunks)\<close> raises \<open>TypeError\<close> unless every chunk is a string.\<close>

fun as_strs :: "pyval list \<Rightarrow> exc + ustr list" where
  "as_strs [] = Inr []"
| "as_strs (PStr s # xs) = (case as_strs xs of Inl e \<Rightarrow> Inl e | Inr ss \<Rightarrow> Inr (s # ss))"
| "as_strs (v # xs) = Inl TypeError"

definition py_join :: "ustr \<Rightarrow> pyval list \<Rightarrow> exc + ustr" where
  "py_join sep chunks = (case as_strs chunks of Inl e \<Rightarrow> Inl e | Inr ss \<Rightarrow> Inr (join sep ss))"

text \<open>Lines 119 to 132 up to the join: the text blob of a \<open>parts\<close> value.\<close>

definition flatten_parts :: "pyval \<Rightarrow> exc + ustr" where
  "flatten_parts parts =
     (case iter_values (py_or parts (PList [])) of
        Inl e \<Rightarrow> Inl e
      | Inr ps \<Rightarrow> py_join [LF] (concat (map collect_chunk ps)))"









subsection \<open>Conversations of the expected shape\<close>


fun is_str :: "pyval \<Rightarrow> bool" where
  "is_str (PStr s) = True"
| "is_str v = False"


text \<open>
  A node of the mapping, as far as the traversal reads it: a dict whose \<open>parent\<close>, when
  present, can be hashed (a string, \<open>None\<close>, a number or a boolean).
\<close>

definition linked_node :: "pyval \<Rightarrow> bool" where
  "linked_node node = (case node of PDict nd \<Rightarrow> hashable (dict_get nd (u ''parent'')) | _ \<Rightarrow> False)"

definition linked_mapping :: "(ustr \<times> pyval) list \<Rightarrow> bool" where
  "linked_mapping d = list_all (\<lambda>kv. linked_node (snd kv)) d"

text \<open>\<open>node\<close> is the node that the mapping \<open>d\<close> holds at the identifier \<open>v\<close>.\<close>

definition node_of :: "(ustr \<times> pyval) list \<Rightarrow> pyval \<Rightarrow> pyval \<Rightarrow> bool" where
  "node_of d v node = (case v of PStr k \<Rightarrow> map_of d k = Some node | _ \<Rightarrow> False)"

text \<open>
  The invariant of the traversal: no identifier is in \<open>seen\<close> twice, and \<open>ordered_nodes\<close>
  holds the nodes of the identifiers seen, in the order of the visits.
\<close>

definition visits :: "(ustr \<times> pyval) list \<Rightarrow> pyval list \<Rightarrow> pyval list \<Rightarrow> bool" where
  "visits d seen nodes = (distinct seen \<and> list_all2 (node_of d) (rev seen) nodes)"








text \<open>
  The flattening step as the specification words it: a plain non-empty string is taken
  as it is, a structured part with a non-empty text gives that text, any other part
  gives nothing.
\<close>

definition spec_chunk :: "pyval \<Rightarrow> pyval list" where
  "spec_chunk p =
     (case p of
        PStr s \<Rightarrow> if s \<noteq> [] then [p] else []
      | PDict d \<Rightarrow> if truthy (dict_get d (u ''text'')) then [dict_get d (u ''text'')] else []
      | _ \<Rightarrow> [])"

section \<open>Properties of the pair builder\<close>

lemma pairs_step_nonempty:
  assumes "\<forall>p \<in> set (fst st). prompt p \<noteq> [] \<and> completion p \<noteq> []"
  shows "\<forall>p \<in> set (fst (pairs_step st m)). prompt p \<noteq> [] \<and> completion p \<noteq> []"
proof (cases st)
  case (Pair pairs buffer_user)
  with assms show ?thesis
    by (simp add: pairs_step_def Let_def)
qed

lemma foldl_pairs_step_nonempty:
  "\<forall>p \<in> set (fst st). prompt p \<noteq> [] \<and> completion p \<noteq> [] \<Longrightarrow>
   \<forall>p \<in> set (fst (foldl pairs_step st ms)). prompt p \<noteq> [] \<and> completion p \<noteq> []"
proof (induction ms arbitrary: st)
  case Nil
  then show ?case by simp
next
  case (Cons m ms)
  have "\<forall>p \<in> set (fst (pairs_step st m)). prompt p \<noteq> [] \<and> completion p \<noteq> []"
    by (rule pairs_step_nonempty) (rule Cons.prems)
  then have "\<forall>p \<in> set (fst (foldl pairs_step (pairs_step st m) ms)).
      prompt p \<noteq> [] \<and> completion p \<noteq> []"
    by (rule Cons.IH)
  then show ?case by (simp only: foldl_Cons)
qed

text \<open>
  Claim C6. Whatever the message sequence, every pair that \<open>messages_to_pairs\<close>
  returns has a non-empty prompt and a non-empty completion.
\<close>

theorem messages_to_pairs_nonempty:
  "\<forall>p \<in> set (messages_to_pairs ms). prompt p \<noteq> [] \<and> completion p \<noteq> []"
  unfolding messages_to_pairs_def by (rule foldl_pairs_step_nonempty) simp

theorem messages_to_pairs_nonempty_witness:
  "messages_to_pairs
     [\<lparr>role = u ''user'', text' = u ''Part 1''\<rparr>, \<lparr>role = u ''user'', text' = u ''Part 2''\<rparr>,
      \<lparr>role = u ''assistant'', text' = u ''OK''\<rparr>, \<lparr>role = u ''assistant'', text' = u ''again''\<rparr>,
      \<lparr>role = u ''user'', text' = u ''trailing''\<rparr>]
   = [\<lparr>prompt = u ''Part 1\<newline>\<newline>Part 2'', completion = u ''OK''\<rparr>]
   \<and> list_all (\<lambda>p. prompt p \<noteq> [] \<and> completion p \<noteq> []) (messages_to_pairs
     [\<lparr>role = u ''user'', text' = u ''Part 1''\<rparr>, \<lparr>role = u ''user'', text' = u ''Part 2''\<rparr>,
      \<lparr>role = u ''assistant'', text' = u ''OK''\<rparr>, \<lparr>role = u ''assistant'', text' = u ''again''\<rparr>,
      \<lparr>role = u ''user'', text' = u ''trailing''\<rparr>])"
proof -
  let ?ms = "[\<lparr>role = u ''user'', text' = u ''Part 1''\<rparr>, \<lparr>role = u ''user'', text' = u ''Part 2''\<rparr>,
      \<lparr>role = u ''assistant'', text' = u ''OK''\<rparr>, \<lparr>role = u ''assistant'', text' = u ''again''\<rparr>,
      \<lparr>role = u ''user'', text' = u ''trailing''\<rparr>]"
  have run: "messages_to_pairs ?ms = [\<lparr>prompt = u ''Part 1\<newline>\<newline>Part 2'', completion = u ''OK''\<rparr>]"
    by (simp add: messages_to_pairs_def pairs_step_def u_def)
  have "list_all (\<lambda>p. prompt p \<noteq> [] \<and> completion p \<noteq> []) (messages_to_pairs ?ms)"
    using messages_to_pairs_nonempty [of ?ms] by (simp only: Ball_set)
  with run show ?thesis by (rule conjI)
qed





section \<open>Properties of the text normalizer\<close>

lemma last_dropWhile: "dropWhile P xs \<noteq> [] \<Longrightarrow> last (dropWhile P xs) = last xs"
  by (induction xs) (auto split: if_splits)

lemma strip_prefix_suffix:
  "\<exists>xs ys. s = xs @ strip s @ ys"
proof -
  let ?a = "dropWhile is_space s"
  have "s = takeWhile is_space s @ ?a" by simp
  moreover have "?a = strip s @ rev (takeWhile is_space (rev ?a))"
  proof -
    have "strip s @ rev (takeWhile is_space (rev ?a))
        = rev (takeWhile is_space (rev ?a) @ dropWhile is_space (rev ?a))"
      by (simp only: strip_def rev_append)
    also have "\<dots> = rev (rev ?a)" by (simp only: takeWhile_dropWhile_id)
    also have "\<dots> = ?a" by (simp only: rev_rev_ident)
    finally show ?thesis by (rule sym)
  qed
  ultimately have "s = takeWhile is_space s @ strip s @ rev (takeWhile is_space (rev ?a))"
    by simp
  then show ?thesis by blast
qed

lemma strip_ends:
  "strip s = [] \<or> (\<not> is_space (hd (strip s)) \<and> \<not> is_space (last (strip s)))"
proof (cases "strip s = []")
  case True
  then show ?thesis by simp
next
  case False
  let ?a = "dropWhile is_space s"
  let ?b = "dropWhile is_space (rev ?a)"
  have b: "?b \<noteq> []" using False by (simp add: strip_def)
  have a: "?a \<noteq> []"
  proof
    assume e: "?a = []"
    have "?b = []" unfolding e by simp
    with b show False by (rule notE)
  qed
  have "\<not> is_space (hd ?b)" using b by (rule hd_dropWhile)
  then have l: "\<not> is_space (last (strip s))" using b by (simp add: strip_def last_rev)
  have "last ?b = last (rev ?a)" using b by (rule last_dropWhile)
  also have "\<dots> = hd ?a" using a by (simp add: last_rev)
  finally have "hd (strip s) = hd ?a" using b by (simp add: strip_def hd_rev)
  moreover have "\<not> is_space (hd ?a)" using a by (rule hd_dropWhile)
  ultimately show ?thesis using l by simp
qed

lemma occurs_imp: "occurs old s \<Longrightarrow> \<exists>xs ys. s = xs @ old @ ys"
proof (induction s)
  case Nil
  then show ?case by simp
next
  case (Cons c cs)
  show ?case
  proof (cases "take (length old) (c # cs) = old")
    case True
    then have "c # cs = [] @ old @ drop (length old) (c # cs)"
      by (metis append_Nil append_take_drop_id)
    then show ?thesis by blast
  next
    case False
    with Cons.prems have "occurs old cs" by simp
    then obtain xs ys where "cs = xs @ old @ ys" using Cons.IH by blast
    then have "c # cs = (c # xs) @ old @ ys" by simp
    then show ?thesis by blast
  qed
qed

lemma occurs_here: "occurs old (old @ ys)"
proof (cases "old @ ys")
  case Nil
  then show ?thesis by simp
next
  case (Cons a l)
  have "take (length old) (a # l) = take (length old) (old @ ys)" by (simp only: Cons)
  also have "\<dots> = old" by simp
  finally have "occurs old (a # l)" by simp
  then show ?thesis by (simp only: Cons)
qed

lemma occurs_append: "occurs old (xs @ old @ ys)"
  by (induction xs) (simp_all add: occurs_here)

lemma occurs_iff: "occurs old s \<longleftrightarrow> (\<exists>xs ys. s = xs @ old @ ys)"
  using occurs_imp occurs_append by blast

lemma occurs_strip: "occurs old (strip s) \<Longrightarrow> occurs old s"
proof -
  assume "occurs old (strip s)"
  then obtain xs ys where st: "strip s = xs @ old @ ys" using occurs_imp by blast
  obtain p q where "s = p @ strip s @ q" using strip_prefix_suffix by blast
  then have "s = (p @ xs) @ old @ (ys @ q)" using st by simp
  then show ?thesis using occurs_append by metis
qed

lemma collapse_run:
  "take 3 (c # cs) = [LF, LF, LF] \<Longrightarrow>
   collapse_newlines (c # cs) = LF # LF # collapse_newlines (dropWhile (\<lambda>x. x = LF) cs)"
  by (simp only: collapse_newlines.simps append.simps) simp

lemma collapse_norun:
  "take 3 (c # cs) \<noteq> [LF, LF, LF] \<Longrightarrow> collapse_newlines (c # cs) = c # collapse_newlines cs"
  by (simp only: collapse_newlines.simps if_False)

lemma run_iff: "take 3 (c # cs) = [LF, LF, LF] \<longleftrightarrow> c = LF \<and> take 2 cs = [LF, LF]"
  by (simp add: numeral_3_eq_3 numeral_2_eq_2)

lemma pair_iff: "take 2 (c # cs) = [LF, LF] \<longleftrightarrow> c = LF \<and> take (Suc 0) cs = [LF]"
  by (simp add: numeral_2_eq_2)

lemma pair_take1: "take 2 cs = [LF, LF] \<Longrightarrow> take (Suc 0) cs = [LF]"
  by (cases cs) (simp_all add: numeral_2_eq_2)

lemma take1_dropWhile_LF: "take (Suc 0) (dropWhile (\<lambda>x. x = LF) cs) \<noteq> [LF]"
proof (cases "dropWhile (\<lambda>x. x = LF) cs")
  case Nil
  show ?thesis unfolding Nil by simp
next
  case (Cons a l)
  then have "dropWhile (\<lambda>x. x = LF) cs \<noteq> []" by simp
  then have "hd (dropWhile (\<lambda>x. x = LF) cs) \<noteq> LF" by (rule hd_dropWhile)
  then show ?thesis unfolding Cons by simp
qed

lemma collapse_take1: "take (Suc 0) (collapse_newlines s) = take (Suc 0) s"
proof (cases s)
  case Nil
  then show ?thesis by simp
next
  case (Cons c cs)
  show ?thesis
  proof (cases "take 3 (c # cs) = [LF, LF, LF]")
    case True
    then have "c = LF" by (simp add: run_iff)
    then show ?thesis unfolding Cons collapse_run [OF True] by simp
  next
    case False
    show ?thesis unfolding Cons collapse_norun [OF False] by simp
  qed
qed

lemma collapse_take2:
  assumes "take 2 (collapse_newlines s) = [LF, LF]"
  shows "take 2 s = [LF, LF]"
proof (cases s)
  case Nil
  with assms show ?thesis by simp
next
  case (Cons c cs)
  show ?thesis
  proof (cases "take 3 (c # cs) = [LF, LF, LF]")
    case True
    then have "c = LF" and "take 2 cs = [LF, LF]" by (simp_all add: run_iff)
    then have "c = LF" and "take (Suc 0) cs = [LF]" by (simp_all add: pair_take1)
    then show ?thesis unfolding Cons by (simp add: pair_iff)
  next
    case False
    from assms have "take 2 (c # collapse_newlines cs) = [LF, LF]"
      unfolding Cons collapse_norun [OF False] .
    then have c: "c = LF" and "take (Suc 0) (collapse_newlines cs) = [LF]"
      by (simp_all add: pair_iff)
    then have "take (Suc 0) cs = [LF]" by (simp only: collapse_take1)
    then show ?thesis unfolding Cons using c by (simp add: pair_iff)
  qed
qed

lemma collapse_take3: "take 3 (collapse_newlines s) \<noteq> [LF, LF, LF]"
proof (cases s)
  case Nil
  then show ?thesis by simp
next
  case (Cons c cs)
  show ?thesis
  proof (cases "take 3 (c # cs) = [LF, LF, LF]")
    case True
    let ?r = "dropWhile (\<lambda>x. x = LF) cs"
    have "take (Suc 0) (collapse_newlines ?r) \<noteq> [LF]"
      unfolding collapse_take1 by (rule take1_dropWhile_LF)
    then show ?thesis unfolding Cons collapse_run [OF True] by (simp add: run_iff pair_iff)
  next
    case False
    show ?thesis
    proof
      assume "take 3 (collapse_newlines s) = [LF, LF, LF]"
      then have "take 3 (c # collapse_newlines cs) = [LF, LF, LF]"
        unfolding Cons collapse_norun [OF False] .
      then have c: "c = LF" and "take 2 (collapse_newlines cs) = [LF, LF]"
        by (simp_all add: run_iff)
      then have "take 2 cs = [LF, LF]" by (simp only: collapse_take2)
      with c have "take 3 (c # cs) = [LF, LF, LF]" by (simp add: run_iff)
      with False show False by (rule notE)
    qed
  qed
qed

lemma occurs_triple_Cons:
  "occurs [LF, LF, LF] (c # cs) \<longleftrightarrow> take 3 (c # cs) = [LF, LF, LF] \<or> occurs [LF, LF, LF] cs"
  by (simp add: numeral_3_eq_3)

lemma collapse_no_triple: "\<not> occurs [LF, LF, LF] (collapse_newlines s)"
proof (induction s rule: collapse_newlines.induct)
  case 1
  show ?case by simp
next
  case (2 c cs)
  let ?r = "dropWhile (\<lambda>x. x = LF) cs"
  have head: "take 3 (collapse_newlines (c # cs)) \<noteq> [LF, LF, LF]" by (rule collapse_take3)
  show ?case
  proof (cases "take 3 (c # cs) = [LF, LF, LF]")
    case True
    then have ih: "\<not> occurs [LF, LF, LF] (collapse_newlines ?r)" by (rule "2.IH"(1))
    have "take (Suc 0) (collapse_newlines ?r) \<noteq> [LF]"
      unfolding collapse_take1 by (rule take1_dropWhile_LF)
    then have "take 3 (LF # collapse_newlines ?r) \<noteq> [LF, LF, LF]"
      by (cases "collapse_newlines ?r") (simp_all add: run_iff pair_iff)
    moreover have "take 3 (LF # LF # collapse_newlines ?r) \<noteq> [LF, LF, LF]"
      using head unfolding collapse_run [OF True] .
    ultimately show ?thesis unfolding collapse_run [OF True] occurs_triple_Cons
      using ih by blast
  next
    case False
    then have ih: "\<not> occurs [LF, LF, LF] (collapse_newlines cs)" by (rule "2.IH"(2))
    have "take 3 (c # collapse_newlines cs) \<noteq> [LF, LF, LF]"
      using head unfolding collapse_norun [OF False] .
    then show ?thesis unfolding collapse_norun [OF False] occurs_triple_Cons
      using ih by blast
  qed
qed

text \<open>
  Claim C4. For every input (\<open>None\<close> counts as the empty string) and whatever NFKC
  does, the output of \<open>clean_text\<close> is empty or begins and ends with a character that
  is not whitespace, and it contains no three consecutive line feeds.
\<close>

theorem clean_text_stripped_no_triple_newline:
  "(clean_text nfkc s0 = []
      \<or> (\<not> is_space (hd (clean_text nfkc s0)) \<and> \<not> is_space (last (clean_text nfkc s0))))
   \<and> \<not> occurs [LF, LF, LF] (clean_text nfkc s0)"
proof (cases s0)
  case None
  then show ?thesis by (simp add: clean_text_def)
next
  case (Some s)
  let ?x = "collapse_newlines (pre_collapse nfkc s)"
  have e: "clean_text nfkc s0 = strip ?x" using Some by (simp add: clean_text_def)
  have "\<not> occurs [LF, LF, LF] ?x" by (rule collapse_no_triple)
  then have "\<not> occurs [LF, LF, LF] (strip ?x)" using occurs_strip by blast
  moreover have "strip ?x = [] \<or> (\<not> is_space (hd (strip ?x)) \<and> \<not> is_space (last (strip ?x)))"
    by (rule strip_ends)
  ultimately show ?thesis unfolding e by blast
qed

theorem clean_text_stripped_no_triple_newline_witness:
  "clean_text id (Some (u ''  a b \<newline>\<newline>\<newline>\<newline> c\"\"\" '')) = u ''a b \<newline>\<newline> c\"''
   \<and> clean_text id None = []
   \<and> \<not> is_space (hd (clean_text id (Some (u ''  a b \<newline>\<newline>\<newline>\<newline> c\"\"\" ''))))
   \<and> \<not> is_space (last (clean_text id (Some (u ''  a b \<newline>\<newline>\<newline>\<newline> c\"\"\" ''))))
   \<and> \<not> occurs [LF, LF, LF] (clean_text id (Some (u ''  a b \<newline>\<newline>\<newline>\<newline> c\"\"\" '')))"
proof -
  have run: "clean_text id (Some (u ''  a b \<newline>\<newline>\<newline>\<newline> c\"\"\" '')) = u ''a b \<newline>\<newline> c\"''"
    by (simp add: clean_text_def pre_collapse_def normalize_line_endings_def
      standardize_tabs_bullets_def sub_trailing_quotes_def trailing_quotes_def strip_def is_space_def Let_def
      u_def CR_def LF_def TAB_def SP_def NBSP_def QUOTE_def BULLET_def)
  have none: "clean_text id None = []" by (simp add: clean_text_def)
  have ne: "clean_text id (Some (u ''  a b \<newline>\<newline>\<newline>\<newline> c\"\"\" '')) \<noteq> []"
    unfolding run by (simp add: u_def)
  show ?thesis
    using clean_text_stripped_no_triple_newline
      [of id "Some (u ''  a b \<newline>\<newline>\<newline>\<newline> c\"\"\" '')"] ne run none
    by blast
qed

subsection \<open>Replacement and the characters of the result\<close>

lemma replace_hit:
  "old \<noteq> [] \<Longrightarrow> take (length old) (c # cs) = old \<Longrightarrow>
   replace old new (c # cs) = new @ replace old new (drop (length old) (c # cs))"
  by (subst replace.simps) simp

lemma replace_miss:
  "old \<noteq> [] \<Longrightarrow> take (length old) (c # cs) \<noteq> old \<Longrightarrow>
   replace old new (c # cs) = c # replace old new cs"
  by (subst replace.simps) simp

lemma set_replace: "set (replace old new s) \<subseteq> set s \<union> set new"
proof (induction old new s rule: replace.induct)
  case (1 old new)
  show ?case by auto
next
  case (2 old new c cs)
  show ?case
  proof (cases "old = []")
    case True
    then show ?thesis using "2.IH"(1) by auto
  next
    case ne: False
    show ?thesis
    proof (cases "take (length old) (c # cs) = old")
      case True
      have "set (replace old new (drop (length old) (c # cs)))
          \<subseteq> set (drop (length old) (c # cs)) \<union> set new"
        using ne True by (rule "2.IH"(2))
      moreover have "set (drop (length old) (c # cs)) \<subseteq> set (c # cs)" by (rule set_drop_subset)
      moreover have "replace old new (c # cs) = new @ replace old new (drop (length old) (c # cs))"
        using ne True by (rule replace_hit)
      ultimately show ?thesis by auto
    next
      case False
      have "set (replace old new cs) \<subseteq> set cs \<union> set new" using ne False by (rule "2.IH"(3))
      moreover have "replace old new (c # cs) = c # replace old new cs"
        using ne False by (rule replace_miss)
      ultimately show ?thesis by auto
    qed
  qed
qed

lemma replace_keeps_out: "c \<notin> set s \<Longrightarrow> c \<notin> set new \<Longrightarrow> c \<notin> set (replace old new s)"
  using set_replace [of old new s] by blast

lemma replace_char_gone: "c \<notin> set new \<Longrightarrow> c \<notin> set (replace [c] new s)"
  by (induction s) simp_all

lemma replace_absent: "old \<noteq> [] \<Longrightarrow> \<not> occurs old s \<Longrightarrow> replace old new s = s"
  by (induction s) simp_all

lemma not_occurs_char: "c \<in> set old \<Longrightarrow> c \<notin> set s \<Longrightarrow> \<not> occurs old s"
proof
  assume c: "c \<in> set old" "c \<notin> set s" and "occurs old s"
  then obtain xs ys where "s = xs @ old @ ys" using occurs_imp by blast
  then have "c \<in> set s" using c(1) by simp
  with c(2) show False by (rule notE)
qed

lemma replace_absent_char:
  "c \<in> set old \<Longrightarrow> c \<notin> set s \<Longrightarrow> replace old new s = s"
proof -
  assume c: "c \<in> set old" "c \<notin> set s"
  then have "old \<noteq> []" by auto
  moreover have "\<not> occurs old s" using c by (rule not_occurs_char)
  ultimately show ?thesis by (rule replace_absent)
qed

subsection \<open>Stripping\<close>

lemma set_strip: "set (strip s) \<subseteq> set s"
proof -
  obtain xs ys where "s = xs @ strip s @ ys" using strip_prefix_suffix by blast
  then have "set s = set xs \<union> set (strip s) \<union> set ys" by (metis set_append sup_assoc)
  then show ?thesis by blast
qed

lemma dropWhile_fixed: "xs = [] \<or> \<not> P (hd xs) \<Longrightarrow> dropWhile P xs = xs"
  by (cases xs) auto

lemma stripped_strip: "stripped (strip s)"
  unfolding stripped_def by (rule strip_ends)

lemma strip_fixed:
  assumes "stripped s"
  shows "strip s = s"
proof -
  have "s = [] \<or> \<not> is_space (hd s)" using assms unfolding stripped_def by blast
  then have d1: "dropWhile is_space s = s" by (rule dropWhile_fixed)
  have "rev s = [] \<or> \<not> is_space (hd (rev s))"
  proof (cases "s = []")
    case True
    then show ?thesis by simp
  next
    case False
    then have "\<not> is_space (last s)" using assms unfolding stripped_def by blast
    then show ?thesis using False by (simp add: hd_rev)
  qed
  then have d2: "dropWhile is_space (rev s) = rev s" by (rule dropWhile_fixed)
  show ?thesis unfolding strip_def d1 d2 by simp
qed

subsection \<open>The newline collapse on its own output\<close>

lemma collapse_fixed: "\<not> occurs [LF, LF, LF] s \<Longrightarrow> collapse_newlines s = s"
proof (induction s)
  case Nil
  show ?case by simp
next
  case (Cons c cs)
  from Cons.prems have a: "take 3 (c # cs) \<noteq> [LF, LF, LF]" and b: "\<not> occurs [LF, LF, LF] cs"
    unfolding occurs_triple_Cons by blast+
  have "collapse_newlines cs = cs" using b by (rule Cons.IH)
  then show ?case unfolding collapse_norun [OF a] by simp
qed

lemma set_collapse: "set (collapse_newlines s) \<subseteq> set s"
proof (induction s rule: collapse_newlines.induct)
  case 1
  show ?case by simp
next
  case (2 c cs)
  show ?case
  proof (cases "take 3 (c # cs) = [LF, LF, LF]")
    case True
    let ?r = "dropWhile (\<lambda>x. x = LF) cs"
    have "set (collapse_newlines ?r) \<subseteq> set ?r" using True by (rule "2.IH"(1))
    moreover have "set ?r \<subseteq> set cs" using set_dropWhileD by fastforce
    moreover have "c = LF" using True by (simp add: run_iff)
    ultimately show ?thesis unfolding collapse_run [OF True] by auto
  next
    case False
    have "set (collapse_newlines cs) \<subseteq> set cs" using False by (rule "2.IH"(2))
    then show ?thesis unfolding collapse_norun [OF False] by auto
  qed
qed

lemma collapse_Nil_iff: "collapse_newlines s = [] \<longleftrightarrow> s = []"
proof -
  have "take (Suc 0) (collapse_newlines s) = take (Suc 0) s" by (rule collapse_take1)
  then show ?thesis by (cases s; cases "collapse_newlines s") simp_all
qed

lemma collapse_hd: "hd (collapse_newlines s) = hd s"
proof -
  have "take (Suc 0) (collapse_newlines s) = take (Suc 0) s" by (rule collapse_take1)
  then show ?thesis by (cases s; cases "collapse_newlines s") simp_all
qed

lemma collapse_last: "s \<noteq> [] \<longrightarrow> last (collapse_newlines s) = last s"
proof (induction s rule: collapse_newlines.induct)
  case 1
  show ?case by simp
next
  case (2 c cs)
  show ?case
  proof (cases "take 3 (c # cs) = [LF, LF, LF]")
    case True
    let ?r = "dropWhile (\<lambda>x. x = LF) cs"
    have c: "c = LF" and cs2: "take 2 cs = [LF, LF]" using True by (simp_all add: run_iff)
    have cs: "cs \<noteq> []" using cs2 by auto
    have ih: "?r \<noteq> [] \<longrightarrow> last (collapse_newlines ?r) = last ?r" using True by (rule "2.IH"(1))
    show ?thesis
    proof (cases "?r = []")
      case True
      then have "\<forall>x \<in> set cs. x = LF" by (simp only: dropWhile_eq_Nil_conv)
      moreover have "last cs \<in> set cs" using cs by (rule last_in_set)
      ultimately have "last cs = LF" by blast
      moreover have "collapse_newlines ?r = []" unfolding True by simp
      ultimately show ?thesis unfolding collapse_run [OF \<open>take 3 (c # cs) = [LF, LF, LF]\<close>]
        using cs by simp
    next
      case False
      then have "collapse_newlines ?r \<noteq> []" by (simp only: collapse_Nil_iff not_False_eq_True)
      moreover have "last (collapse_newlines ?r) = last ?r" using False ih by blast
      moreover have "last ?r = last cs" using False by (rule last_dropWhile)
      ultimately show ?thesis unfolding collapse_run [OF True] using cs by simp
    qed
  next
    case False
    have ih: "cs \<noteq> [] \<longrightarrow> last (collapse_newlines cs) = last cs" using False by (rule "2.IH"(2))
    show ?thesis
    proof (cases "cs = []")
      case True
      show ?thesis unfolding collapse_norun [OF False] True by simp
    next
      case ne: False
      then have "collapse_newlines cs \<noteq> []" by (simp only: collapse_Nil_iff not_False_eq_True)
      then show ?thesis unfolding collapse_norun [OF False] using ih ne by simp
    qed
  qed
qed

lemma stripped_collapse:
  assumes "stripped s"
  shows "stripped (collapse_newlines s)"
proof (cases "s = []")
  case True
  then show ?thesis by (simp add: stripped_def)
next
  case False
  then have "last (collapse_newlines s) = last s" using collapse_last by blast
  moreover have "hd (collapse_newlines s) = hd s" by (rule collapse_hd)
  ultimately show ?thesis using assms False unfolding stripped_def by simp
qed

lemma take3_snoc:
  assumes "c \<noteq> LF"
  shows "take 3 ((x # xs) @ [c]) = [LF, LF, LF] \<longleftrightarrow> take 3 (x # xs) = [LF, LF, LF]"
proof (cases xs)
  case Nil
  then show ?thesis by (simp add: numeral_3_eq_3)
next
  case (Cons y ys)
  then show ?thesis using assms by (cases ys) (simp_all add: numeral_3_eq_3)
qed

lemma dropWhile_snoc: "\<not> P c \<Longrightarrow> dropWhile P (xs @ [c]) = dropWhile P xs @ [c]"
  by (induction xs) simp_all

lemma collapse_snoc: "c \<noteq> LF \<Longrightarrow> collapse_newlines (xs @ [c]) = collapse_newlines xs @ [c]"
proof (induction xs rule: collapse_newlines.induct)
  case 1
  have "take 3 [c] \<noteq> [LF, LF, LF]" by simp
  then have "collapse_newlines [c] = c # collapse_newlines []" by (rule collapse_norun)
  then show ?case by simp
next
  case (2 x xs)
  note c = \<open>c \<noteq> LF\<close>
  show ?case
  proof (cases "take 3 (x # xs) = [LF, LF, LF]")
    case True
    let ?r = "dropWhile (\<lambda>x. x = LF) xs"
    have t: "take 3 (x # (xs @ [c])) = [LF, LF, LF]" using True take3_snoc [OF c, of x xs] by simp
    have "collapse_newlines (?r @ [c]) = collapse_newlines ?r @ [c]" using True c by (rule "2.IH"(1))
    moreover have "dropWhile (\<lambda>x. x = LF) (xs @ [c]) = ?r @ [c]" using c by (simp add: dropWhile_snoc)
    ultimately have "collapse_newlines (x # (xs @ [c])) = LF # LF # collapse_newlines ?r @ [c]"
      unfolding collapse_run [OF t] by simp
    then show ?thesis unfolding collapse_run [OF True] by simp
  next
    case False
    have t: "take 3 (x # (xs @ [c])) \<noteq> [LF, LF, LF]" using False take3_snoc [OF c, of x xs] by simp
    have "collapse_newlines (xs @ [c]) = collapse_newlines xs @ [c]" using False c by (rule "2.IH"(2))
    then have "collapse_newlines (x # (xs @ [c])) = x # collapse_newlines xs @ [c]"
      unfolding collapse_norun [OF t] by simp
    then show ?thesis unfolding collapse_norun [OF False] by simp
  qed
qed

subsection \<open>Trailing quotes\<close>

lemma takeWhile_dropWhile_Nil: "takeWhile P (dropWhile P xs) = []"
  by (induction xs) simp_all

lemma stripped_body:
  assumes "stripped t"
  shows "(if t \<noteq> [] \<and> last t = LF then butlast t else t) = t"
proof -
  have "is_space LF" by (simp add: is_space_def LF_def)
  then have "\<not> (t \<noteq> [] \<and> last t = LF)" using assms unfolding stripped_def by metis
  then show ?thesis by auto
qed

lemma sub_trailing_quotes_stripped:
  assumes "stripped t"
  shows "sub_trailing_quotes t =
    (if 2 \<le> trailing_quotes t then rev (dropWhile (\<lambda>c. c = QUOTE) (rev t)) @ [QUOTE] else t)"
proof -
  let ?tw = "takeWhile (\<lambda>c. c = QUOTE) (rev t)"
  let ?dw = "dropWhile (\<lambda>c. c = QUOTE) (rev t)"
  have "rev ?dw @ rev ?tw = rev (?tw @ ?dw)" by (simp only: rev_append)
  also have "\<dots> = rev (rev t)" by (simp only: takeWhile_dropWhile_id)
  also have "\<dots> = t" by (simp only: rev_rev_ident)
  finally have t: "t = rev ?dw @ rev ?tw" by (rule sym)
  have "length t = length ?dw + length ?tw" using arg_cong [OF t, of length] by simp
  then have len: "length t - trailing_quotes t = length (rev ?dw)"
    unfolding trailing_quotes_def by simp
  have "take (length (rev ?dw)) (rev ?dw @ rev ?tw) = rev ?dw" by simp
  then have "take (length t - trailing_quotes t) t = rev ?dw" unfolding len using t by simp
  then show ?thesis
    unfolding sub_trailing_quotes_def stripped_body [OF assms] Let_def by simp
qed

lemma trailing_quotes_after:
  "trailing_quotes (rev (dropWhile (\<lambda>c. c = QUOTE) xs) @ [QUOTE]) = 1"
  unfolding trailing_quotes_def by (simp add: takeWhile_dropWhile_Nil)

lemma sub_trailing_quotes_props:
  assumes "stripped t"
  shows "stripped (sub_trailing_quotes t) \<and> trailing_quotes (sub_trailing_quotes t) < 2"
proof (cases "2 \<le> trailing_quotes t")
  case False
  then have "sub_trailing_quotes t = t" unfolding sub_trailing_quotes_stripped [OF assms] by simp
  then show ?thesis using assms False by simp
next
  case True
  let ?dw = "dropWhile (\<lambda>c. c = QUOTE) (rev t)"
  have e: "sub_trailing_quotes t = rev ?dw @ [QUOTE]"
    unfolding sub_trailing_quotes_stripped [OF assms] using True by simp
  have q: "\<not> is_space QUOTE" by (simp add: is_space_def QUOTE_def)
  have hd: "\<not> is_space (hd (rev ?dw @ [QUOTE]))"
  proof (cases "?dw = []")
    case True
    show ?thesis unfolding True using q by simp
  next
    case False
    then have "last ?dw = last (rev t)" by (rule last_dropWhile)
    moreover have "t \<noteq> []" using False by auto
    ultimately have "hd (rev ?dw) = hd t" using False by (simp add: hd_rev last_rev)
    moreover have "\<not> is_space (hd t)" using assms \<open>t \<noteq> []\<close> unfolding stripped_def by blast
    ultimately show ?thesis using False by simp
  qed
  have "stripped (rev ?dw @ [QUOTE])" unfolding stripped_def using hd q by simp
  then show ?thesis unfolding e trailing_quotes_after by simp
qed

lemma sub_trailing_quotes_fixed:
  "stripped t \<Longrightarrow> trailing_quotes t < 2 \<Longrightarrow> sub_trailing_quotes t = t"
  by (simp add: sub_trailing_quotes_stripped)

lemma set_sub_trailing_quotes: "set (sub_trailing_quotes t) \<subseteq> insert QUOTE (set t)"
  by (auto simp: sub_trailing_quotes_def Let_def dest: in_set_takeD in_set_dropD in_set_butlastD)

lemma trailing_quotes_ge2: "2 \<le> trailing_quotes s \<longleftrightarrow> (\<exists>ys. s = ys @ [QUOTE, QUOTE])"
proof
  assume a: "2 \<le> trailing_quotes s"
  show "\<exists>ys. s = ys @ [QUOTE, QUOTE]"
  proof (cases "rev s")
    case Nil
    with a show ?thesis by (simp add: trailing_quotes_def)
  next
    case c1: (Cons a xs)
    show ?thesis
    proof (cases xs)
      case Nil
      with a c1 show ?thesis by (simp add: trailing_quotes_def split: if_splits)
    next
      case (Cons b zs)
      with a c1 have "a = QUOTE \<and> b = QUOTE" by (simp add: trailing_quotes_def split: if_splits)
      then have "rev s = QUOTE # QUOTE # zs" using c1 Cons by simp
      then have "rev (rev s) = rev (QUOTE # QUOTE # zs)" by (rule arg_cong)
      then have "s = rev zs @ [QUOTE, QUOTE]" by simp
      then show ?thesis by blast
    qed
  qed
next
  assume "\<exists>ys. s = ys @ [QUOTE, QUOTE]"
  then obtain ys where "s = ys @ [QUOTE, QUOTE]" by blast
  then show "2 \<le> trailing_quotes s" by (simp add: trailing_quotes_def)
qed

lemma snoc_last: "xs \<noteq> [] \<Longrightarrow> \<exists>ys. xs = ys @ [last xs]"
  by (metis append_butlast_last_id)

lemma trailing_quotes_collapse:
  assumes "trailing_quotes q < 2"
  shows "trailing_quotes (collapse_newlines q) < 2"
proof (rule ccontr)
  assume "\<not> trailing_quotes (collapse_newlines q) < 2"
  then have "2 \<le> trailing_quotes (collapse_newlines q)" by simp
  then obtain ys where ys: "collapse_newlines q = ys @ [QUOTE, QUOTE]"
    unfolding trailing_quotes_ge2 by blast
  have ql: "QUOTE \<noteq> LF" by (simp add: QUOTE_def LF_def)
  have "collapse_newlines q \<noteq> []" using ys by simp
  then have q: "q \<noteq> []" unfolding collapse_Nil_iff .
  then have "last q = last (collapse_newlines q)" using collapse_last by simp
  then have "last q = QUOTE" using ys by simp
  then obtain q1 where q1: "q = q1 @ [QUOTE]" using snoc_last [OF q] by auto
  have "collapse_newlines q = collapse_newlines q1 @ [QUOTE]"
    unfolding q1 using ql by (rule collapse_snoc)
  then have c1: "collapse_newlines q1 = ys @ [QUOTE]" using ys by simp
  then have "collapse_newlines q1 \<noteq> []" by simp
  then have q1n: "q1 \<noteq> []" unfolding collapse_Nil_iff .
  then have "last q1 = last (collapse_newlines q1)" using collapse_last by simp
  then have "last q1 = QUOTE" using c1 by simp
  then obtain q2 where "q1 = q2 @ [QUOTE]" using snoc_last [OF q1n] by auto
  then have "q = q2 @ [QUOTE, QUOTE]" using q1 by simp
  then have "2 \<le> trailing_quotes q" unfolding trailing_quotes_ge2 by blast
  with assms show False by simp
qed

subsection \<open>Idempotence\<close>

lemma const_facts:
  "CR \<noteq> LF" "CR \<notin> set BULLET" "CR \<notin> set (u ''    '')" "CR \<notin> set (BULLET @ [SP])" "CR \<noteq> SP"
  "CR \<noteq> QUOTE"
  "TAB \<notin> set (u ''    '')" "TAB \<notin> set (BULLET @ [SP])" "TAB \<noteq> SP" "TAB \<noteq> QUOTE"
  "NBSP \<noteq> SP" "NBSP \<noteq> QUOTE"
  by (simp_all add: CR_def LF_def TAB_def SP_def NBSP_def QUOTE_def BULLET_def u_def)

lemma tail_keeps_out:
  assumes "c \<notin> set x" and "c \<noteq> QUOTE"
  shows "c \<notin> set (strip (collapse_newlines (sub_trailing_quotes (strip x))))"
proof -
  have "c \<notin> set (strip x)" using assms(1) set_strip by blast
  then have "c \<notin> set (sub_trailing_quotes (strip x))"
    using assms(2) set_sub_trailing_quotes by blast
  then have "c \<notin> set (collapse_newlines (sub_trailing_quotes (strip x)))"
    using set_collapse by blast
  then show ?thesis using set_strip by blast
qed

lemma standardize_no_CR:
  assumes "CR \<notin> set s"
  shows "CR \<notin> set (standardize_tabs_bullets s)"
  unfolding standardize_tabs_bullets_def Let_def
  by (intro replace_keeps_out assms const_facts)

lemma standardize_no_TAB: "TAB \<notin> set (standardize_tabs_bullets s)"
  unfolding standardize_tabs_bullets_def Let_def
  by (intro replace_keeps_out replace_char_gone const_facts)

lemma clean_text_shape:
  "clean_text nfkc (Some s) = strip (collapse_newlines (sub_trailing_quotes (strip
     (replace [NBSP] [SP] (standardize_tabs_bullets (normalize_line_endings (nfkc s)))))))"
  by (simp add: clean_text_def pre_collapse_def Let_def)

lemma clean_text_chars:
  "CR \<notin> set (clean_text nfkc s0) \<and> TAB \<notin> set (clean_text nfkc s0)
   \<and> NBSP \<notin> set (clean_text nfkc s0)"
proof (cases s0)
  case None
  then show ?thesis by (simp add: clean_text_def)
next
  case (Some s)
  let ?s2 = "normalize_line_endings (nfkc s)"
  let ?s3 = "standardize_tabs_bullets ?s2"
  let ?s4 = "replace [NBSP] [SP] ?s3"
  have "CR \<notin> set ?s2" unfolding normalize_line_endings_def
    by (intro replace_char_gone) (simp add: const_facts)
  then have "CR \<notin> set ?s3" by (rule standardize_no_CR)
  then have cr: "CR \<notin> set ?s4" by (intro replace_keeps_out) (simp_all add: const_facts)
  have "TAB \<notin> set ?s3" by (rule standardize_no_TAB)
  then have tab: "TAB \<notin> set ?s4" by (intro replace_keeps_out) (simp_all add: const_facts)
  have nbsp: "NBSP \<notin> set ?s4" by (intro replace_char_gone) (simp add: const_facts)
  show ?thesis unfolding Some clean_text_shape
    by (intro conjI tail_keeps_out cr tab nbsp const_facts)
qed

lemma clean_text_form:
  "stripped (clean_text nfkc s0) \<and> trailing_quotes (clean_text nfkc s0) < 2
   \<and> \<not> occurs [LF, LF, LF] (clean_text nfkc s0)"
proof (cases s0)
  case None
  then show ?thesis by (simp add: clean_text_def stripped_def trailing_quotes_def)
next
  case (Some s)
  let ?w = "strip (replace [NBSP] [SP] (standardize_tabs_bullets (normalize_line_endings (nfkc s))))"
  let ?q = "sub_trailing_quotes ?w"
  let ?r = "collapse_newlines ?q"
  have "stripped ?w" by (rule stripped_strip)
  then have q: "stripped ?q \<and> trailing_quotes ?q < 2" by (rule sub_trailing_quotes_props)
  then have r1: "stripped ?r" using stripped_collapse by blast
  have r2: "trailing_quotes ?r < 2" using q trailing_quotes_collapse by blast
  have r3: "\<not> occurs [LF, LF, LF] ?r" by (rule collapse_no_triple)
  have "strip ?r = ?r" using r1 by (rule strip_fixed)
  then show ?thesis unfolding Some clean_text_shape using r1 r2 r3 by simp
qed

lemma clean_text_fixed:
  assumes chars: "CR \<notin> set t" "TAB \<notin> set t" "NBSP \<notin> set t"
    and form: "stripped t" "trailing_quotes t < 2" "\<not> occurs [LF, LF, LF] t"
    and nfkc: "nfkc t = t"
    and bullet: "\<not> occurs (BULLET @ [SP, SP]) t"
  shows "clean_text nfkc (Some t) = t"
proof -
  have s2: "normalize_line_endings t = t"
    unfolding normalize_line_endings_def
    using chars(1) by (simp add: replace_absent_char [of CR])
  have s3: "standardize_tabs_bullets t = t"
    unfolding standardize_tabs_bullets_def Let_def
    using chars(2) bullet by (simp add: replace_absent_char [of TAB] replace_absent)
  have s4: "replace [NBSP] [SP] t = t"
    using chars(3) by (simp add: replace_absent_char [of NBSP])
  have s5: "strip t = t" using form(1) by (rule strip_fixed)
  have s6: "sub_trailing_quotes t = t" using form(1,2) by (rule sub_trailing_quotes_fixed)
  have s7: "collapse_newlines t = t" using form(3) by (rule collapse_fixed)
  show ?thesis unfolding clean_text_shape nfkc s2 s3 s4 s5 s6 s7 ..
qed

text \<open>
  Claim C1, amended. If the output of \<open>clean_text\<close> is a string that NFKC leaves as
  it is and that does not contain the bullet literal followed by two spaces, then
  cleaning it again returns it unchanged. (The output has no CR, tab or no-break space,
  no surrounding whitespace, at most one trailing quote and no three line feeds in a
  row, so every other step finds nothing to do.)
\<close>

theorem clean_text_idempotent_if:
  assumes "nfkc (clean_text nfkc s0) = clean_text nfkc s0"
    and "\<not> occurs (BULLET @ [SP, SP]) (clean_text nfkc s0)"
  shows "clean_text nfkc (Some (clean_text nfkc s0)) = clean_text nfkc s0"
proof -
  have c: "CR \<notin> set (clean_text nfkc s0)" "TAB \<notin> set (clean_text nfkc s0)"
    "NBSP \<notin> set (clean_text nfkc s0)"
    using clean_text_chars [of nfkc s0] by blast+
  have f: "stripped (clean_text nfkc s0)" "trailing_quotes (clean_text nfkc s0) < 2"
    "\<not> occurs [LF, LF, LF] (clean_text nfkc s0)"
    using clean_text_form [of nfkc s0] by blast+
  show ?thesis using c f assms by (rule clean_text_fixed)
qed

text \<open>
  The replacement of the bullet literal followed by two spaces is a single pass and
  removes one space per occurrence. On the bullet literal followed by three spaces and
  \<open>x\<close> (a string whose characters NFKC does not change, so \<open>id\<close> stands for NFKC
  here) the first call leaves two spaces, and a second call removes one more.
\<close>

theorem clean_text_not_idempotent:
  "clean_text id (Some (BULLET @ u ''   x'')) = BULLET @ u ''  x''
   \<and> clean_text id (Some (clean_text id (Some (BULLET @ u ''   x'')))) = BULLET @ u '' x''
   \<and> clean_text id (Some (clean_text id (Some (BULLET @ u ''   x''))))
       \<noteq> clean_text id (Some (BULLET @ u ''   x''))"
proof -
  have a: "clean_text id (Some (BULLET @ u ''   x'')) = BULLET @ u ''  x''"
    by (simp add: clean_text_def pre_collapse_def normalize_line_endings_def
      standardize_tabs_bullets_def sub_trailing_quotes_def trailing_quotes_def strip_def
      is_space_def Let_def u_def CR_def LF_def TAB_def SP_def NBSP_def QUOTE_def BULLET_def)
  have b: "clean_text id (Some (BULLET @ u ''  x'')) = BULLET @ u '' x''"
    by (simp add: clean_text_def pre_collapse_def normalize_line_endings_def
      standardize_tabs_bullets_def sub_trailing_quotes_def trailing_quotes_def strip_def
      is_space_def Let_def u_def CR_def LF_def TAB_def SP_def NBSP_def QUOTE_def BULLET_def)
  have c: "BULLET @ u '' x'' \<noteq> BULLET @ u ''  x''" by (simp add: u_def)
  show ?thesis unfolding a b using c by simp
qed

theorem clean_text_idempotent_if_witness:
  "id (clean_text id (Some (u ''  a b \<newline>\<newline>\<newline>\<newline> c\"\"\" ''))) = clean_text id (Some (u ''  a b \<newline>\<newline>\<newline>\<newline> c\"\"\" ''))
   \<and> \<not> occurs (BULLET @ [SP, SP]) (clean_text id (Some (u ''  a b \<newline>\<newline>\<newline>\<newline> c\"\"\" '')))
   \<and> clean_text id (Some (u ''  a b \<newline>\<newline>\<newline>\<newline> c\"\"\" '')) = u ''a b \<newline>\<newline> c\"''
   \<and> clean_text id (Some (clean_text id (Some (u ''  a b \<newline>\<newline>\<newline>\<newline> c\"\"\" ''))))
       = clean_text id (Some (u ''  a b \<newline>\<newline>\<newline>\<newline> c\"\"\" ''))"
proof -
  let ?s = "Some (u ''  a b \<newline>\<newline>\<newline>\<newline> c\"\"\" '')"
  have run: "clean_text id ?s = u ''a b \<newline>\<newline> c\"''"
    by (simp add: clean_text_def pre_collapse_def normalize_line_endings_def
      standardize_tabs_bullets_def sub_trailing_quotes_def trailing_quotes_def strip_def
      is_space_def Let_def u_def CR_def LF_def TAB_def SP_def NBSP_def QUOTE_def BULLET_def)
  have h1: "id (clean_text id ?s) = clean_text id ?s" by simp
  have h2: "\<not> occurs (BULLET @ [SP, SP]) (clean_text id ?s)"
    unfolding run by (simp add: u_def BULLET_def SP_def)
  have "clean_text id (Some (clean_text id ?s)) = clean_text id ?s"
    using h1 h2 by (rule clean_text_idempotent_if)
  then show ?thesis using h1 h2 run by blast
qed

text \<open>
  On \<open>"word1\r\nword2\r\r\rword3"\<close> the two replacements of line 60 give three line
  feeds after \<open>word2\<close> (each bare CR becomes one LF), not two, and the later collapse
  does change that string.
\<close>

theorem line_endings_counterexample:
  "normalize_line_endings (u ''word1'' @ [CR, LF] @ u ''word2'' @ [CR, CR, CR] @ u ''word3'')
     = u ''word1\<newline>word2\<newline>\<newline>\<newline>word3''
   \<and> normalize_line_endings (u ''word1'' @ [CR, LF] @ u ''word2'' @ [CR, CR, CR] @ u ''word3'')
     \<noteq> u ''word1\<newline>word2\<newline>\<newline>word3''
   \<and> collapse_newlines (u ''word1\<newline>word2\<newline>\<newline>\<newline>word3'')
     \<noteq> u ''word1\<newline>word2\<newline>\<newline>\<newline>word3''"
  by (simp add: normalize_line_endings_def u_def CR_def LF_def)

text \<open>
  Claim C8, amended. On \<open>"word1\r\nword2\r\r\rword3"\<close> (which NFKC leaves as it is)
  line-ending canonicalization gives \<open>"word1\nword2\n\n\nword3"\<close>, with three line
  feeds; that is still the string when the newline collapse runs; the collapse turns
  the run of three into two; and \<open>clean_text\<close> returns \<open>"word1\nword2\n\nword3"\<close>.
\<close>

theorem clean_text_crlf_example:
  assumes "nfkc (u ''word1'' @ [CR, LF] @ u ''word2'' @ [CR, CR, CR] @ u ''word3'')
     = u ''word1'' @ [CR, LF] @ u ''word2'' @ [CR, CR, CR] @ u ''word3''"
  shows "normalize_line_endings (nfkc (u ''word1'' @ [CR, LF] @ u ''word2'' @ [CR, CR, CR] @ u ''word3''))
       = u ''word1\<newline>word2\<newline>\<newline>\<newline>word3''
     \<and> pre_collapse nfkc (u ''word1'' @ [CR, LF] @ u ''word2'' @ [CR, CR, CR] @ u ''word3'')
       = u ''word1\<newline>word2\<newline>\<newline>\<newline>word3''
     \<and> collapse_newlines (u ''word1\<newline>word2\<newline>\<newline>\<newline>word3'')
       = u ''word1\<newline>word2\<newline>\<newline>word3''
     \<and> clean_text nfkc (Some (u ''word1'' @ [CR, LF] @ u ''word2'' @ [CR, CR, CR] @ u ''word3''))
       = u ''word1\<newline>word2\<newline>\<newline>word3''"
  using assms
  by (simp add: clean_text_def pre_collapse_def normalize_line_endings_def
      standardize_tabs_bullets_def sub_trailing_quotes_def trailing_quotes_def strip_def is_space_def Let_def
      u_def CR_def LF_def TAB_def SP_def NBSP_def QUOTE_def BULLET_def)

theorem clean_text_crlf_example_witness:
  "id (u ''word1'' @ [CR, LF] @ u ''word2'' @ [CR, CR, CR] @ u ''word3'')
     = u ''word1'' @ [CR, LF] @ u ''word2'' @ [CR, CR, CR] @ u ''word3''
   \<and> clean_text id (Some (u ''word1'' @ [CR, LF] @ u ''word2'' @ [CR, CR, CR] @ u ''word3''))
       = u ''word1\<newline>word2\<newline>\<newline>word3''"
  using clean_text_crlf_example [of id] by simp

section \<open>Properties of the filename sanitizer\<close>

lemma length_strip_le: "length (strip s) \<le> length s"
proof -
  have "length (strip s) \<le> length (dropWhile is_space s)"
    unfolding strip_def using length_dropWhile_le [of is_space "rev (dropWhile is_space s)"] by simp
  also have "\<dots> \<le> length s" by (rule length_dropWhile_le)
  finally show ?thesis .
qed

lemma length_slice_to: "0 \<le> n \<Longrightarrow> int (length (slice_to n s)) \<le> n"
  by (simp add: slice_to_def)

text \<open>
  Claim C9, amended. For every title and every \<open>max_length \<ge> 0\<close>, \<open>sanitize_filename\<close>
  returns a non-empty string of at most \<open>max(max_length, 12)\<close> characters. When the
  substitution, the truncation to \<open>max_length\<close> and the stripping leave the empty string,
  the result is the 12-character literal \<open>conversation\<close>, whatever \<open>max_length\<close> is, so also
  when it is smaller than 12: the truncation bound does not apply to the fallback.
  Otherwise the result is that stripped, truncated string, of at most \<open>max_length\<close>
  characters. (For a negative \<open>max_length\<close> the slice \<open>[:max_length]\<close> drops characters from
  the end instead, and the bound fails.)
\<close>

theorem sanitize_filename_bounds:
  assumes "0 \<le> max_length"
  shows "sanitize_filename isalnum title max_length \<noteq> []
     \<and> int (length (sanitize_filename isalnum title max_length)) \<le> max max_length 12
     \<and> (strip (slice_to max_length (sub_unsafe isalnum title)) = [] \<longrightarrow>
          sanitize_filename isalnum title max_length = u ''conversation''
          \<and> length (sanitize_filename isalnum title max_length) = 12)
     \<and> (strip (slice_to max_length (sub_unsafe isalnum title)) \<noteq> [] \<longrightarrow>
          sanitize_filename isalnum title max_length
            = strip (slice_to max_length (sub_unsafe isalnum title))
          \<and> int (length (sanitize_filename isalnum title max_length)) \<le> max_length)"
proof -
  let ?cut = "slice_to max_length (sub_unsafe isalnum title)"
  have "int (length (strip ?cut)) \<le> int (length ?cut)"
    using length_strip_le [of ?cut] by simp
  also have "\<dots> \<le> max_length" using assms by (rule length_slice_to)
  finally have cut: "int (length (strip ?cut)) \<le> max_length" .
  have fallback: "u ''conversation'' \<noteq> [] \<and> length (u ''conversation'') = 12"
    by (simp add: u_def)
  show ?thesis
  proof (cases "strip ?cut = []")
    case True
    then have "sanitize_filename isalnum title max_length = u ''conversation''"
      by (simp add: sanitize_filename_def)
    then show ?thesis using fallback True by simp
  next
    case False
    then have "sanitize_filename isalnum title max_length = strip ?cut"
      by (simp add: sanitize_filename_def Let_def)
    then show ?thesis using cut False by simp
  qed
qed

theorem sanitize_filename_bounds_witness:
  "(0::int) \<le> 120
   \<and> sanitize_filename ascii_alnum (u ''My/Chat: Test?'') 120 = u ''My_Chat_ Test_''
   \<and> sanitize_filename ascii_alnum (u ''My/Chat: Test?'') 120 \<noteq> []
   \<and> int (length (sanitize_filename ascii_alnum (u ''My/Chat: Test?'') 120)) \<le> max 120 12
   \<and> (0::int) \<le> 3
   \<and> strip (slice_to 3 (sub_unsafe ascii_alnum (u ''     ''))) = []
   \<and> sanitize_filename ascii_alnum (u ''     '') 3 = u ''conversation''
   \<and> length (sanitize_filename ascii_alnum (u ''     '') 3) = 12
   \<and> sanitize_filename ascii_alnum [] 3 = u ''conversation''
   \<and> (0::int) \<le> 5
   \<and> strip (slice_to 5 (sub_unsafe ascii_alnum (u ''a/b c?def''))) = u ''a_b c''
   \<and> sanitize_filename ascii_alnum (u ''a/b c?def'') 5 = u ''a_b c''
   \<and> int (length (sanitize_filename ascii_alnum (u ''a/b c?def'') 5)) \<le> 5"
proof -
  have a: "strip (slice_to 120 (sub_unsafe ascii_alnum (u ''My/Chat: Test?''))) = u ''My_Chat_ Test_''"
    by (simp add: slice_to_def strip_def is_space_def keep_char_def
        ascii_alnum_def u_def UNDERSCORE_def SP_def)
  have b: "strip (slice_to 3 (sub_unsafe ascii_alnum (u ''     ''))) = []"
    by (simp add: slice_to_def strip_def is_space_def keep_char_def
        ascii_alnum_def u_def UNDERSCORE_def SP_def)
  have c: "strip (slice_to 3 (sub_unsafe ascii_alnum [])) = []"
    by (simp add: slice_to_def strip_def)
  have d: "strip (slice_to 5 (sub_unsafe ascii_alnum (u ''a/b c?def''))) = u ''a_b c''"
    by (simp add: slice_to_def strip_def is_space_def keep_char_def
        ascii_alnum_def u_def UNDERSCORE_def SP_def)
  have ne: "u ''My_Chat_ Test_'' \<noteq> []" "u ''a_b c'' \<noteq> []" by (simp_all add: u_def)
  have z: "(0::int) \<le> 120" "(0::int) \<le> 3" "(0::int) \<le> 5" by simp_all
  note ta = sanitize_filename_bounds [OF z(1), where isalnum = ascii_alnum
      and title = "u ''My/Chat: Test?''", unfolded a]
  note tb = sanitize_filename_bounds [OF z(2), where isalnum = ascii_alnum
      and title = "u ''     ''", unfolded b]
  note tc = sanitize_filename_bounds [OF z(2), where isalnum = ascii_alnum
      and title = "[]", unfolded c]
  note td = sanitize_filename_bounds [OF z(3), where isalnum = ascii_alnum
      and title = "u ''a/b c?def''", unfolded d]
  have ra: "sanitize_filename ascii_alnum (u ''My/Chat: Test?'') 120 = u ''My_Chat_ Test_''"
    "sanitize_filename ascii_alnum (u ''My/Chat: Test?'') 120 \<noteq> []"
    "int (length (sanitize_filename ascii_alnum (u ''My/Chat: Test?'') 120)) \<le> max 120 12"
    using ta ne by blast+
  have rb: "sanitize_filename ascii_alnum (u ''     '') 3 = u ''conversation''"
    "length (sanitize_filename ascii_alnum (u ''     '') 3) = 12"
    using tb by blast+
  have rc: "sanitize_filename ascii_alnum [] 3 = u ''conversation''"
    using tc by blast
  have rd: "sanitize_filename ascii_alnum (u ''a/b c?def'') 5 = u ''a_b c''"
    "int (length (sanitize_filename ascii_alnum (u ''a/b c?def'') 5)) \<le> 5"
    using td ne by blast+
  show ?thesis using ra rb rc rd b d by simp
qed

text \<open>
  With \<open>max_length = -1\<close> the slice keeps all but the last character: a 16-character
  title gives a 15-character name, longer than \<open>max(-1, 12) = 12\<close>.
\<close>

theorem sanitize_filename_negative_counterexample:
  "sanitize_filename ascii_alnum (u ''abcdefghijklmnop'') (- 1) = u ''abcdefghijklmno''
   \<and> \<not> int (length (sanitize_filename ascii_alnum (u ''abcdefghijklmnop'') (- 1))) \<le> max (- 1) 12"
  by (simp add: sanitize_filename_def slice_to_def strip_def is_space_def keep_char_def
      ascii_alnum_def u_def UNDERSCORE_def SP_def)

section \<open>Properties of the message extractor\<close>








lemma strip_Nil_iff: "strip s = [] \<longleftrightarrow> (\<forall>c \<in> set s. is_space c)"
proof -
  let ?a = "dropWhile is_space s"
  have "strip s = [] \<longleftrightarrow> (\<forall>x \<in> set ?a. is_space x)"
    by (simp add: strip_def dropWhile_eq_Nil_conv)
  also have "\<dots> \<longleftrightarrow> ?a = []"
  proof
    assume all: "\<forall>x \<in> set ?a. is_space x"
    show "?a = []"
    proof (rule ccontr)
      assume ne: "?a \<noteq> []"
      then have "\<not> is_space (hd ?a)" by (rule hd_dropWhile)
      moreover have "hd ?a \<in> set ?a" using ne by (rule hd_in_set)
      ultimately show False using all by blast
    qed
  next
    assume e: "?a = []"
    show "\<forall>x \<in> set ?a. is_space x" unfolding e by simp
  qed
  also have "\<dots> \<longleftrightarrow> (\<forall>c \<in> set s. is_space c)" by (rule dropWhile_eq_Nil_conv)
  finally show ?thesis .
qed

lemma as_strs_PStr: "as_strs (map PStr ss) = Inr ss"
  by (induction ss) simp_all

text \<open>
  Claim C3, amended. A part that is a string with at least one character that is not
  whitespace is one chunk, taken as it is; a string of whitespace only (the empty string
  included) gives no chunk; a structured part whose \<open>text\<close> counts as true gives that
  text, and one whose \<open>text\<close> is missing or empty gives nothing; a part of any other
  shape gives nothing. The chunks of all parts, in order, are joined with one line feed.
\<close>

theorem flatten_chunks:
  "((\<exists>c \<in> set s. \<not> is_space c) \<longrightarrow> collect_chunk (PStr s) = [PStr s])
   \<and> ((\<forall>c \<in> set s. is_space c) \<longrightarrow> collect_chunk (PStr s) = [])
   \<and> (truthy (dict_get d (u ''text'')) \<longrightarrow> collect_chunk (PDict d) = [dict_get d (u ''text'')])
   \<and> (\<not> truthy (dict_get d (u ''text'')) \<longrightarrow> collect_chunk (PDict d) = [])
   \<and> collect_chunk PNone = [] \<and> collect_chunk (PBool b) = [] \<and> collect_chunk (PInt i) = []
   \<and> collect_chunk (PList xs) = []
   \<and> flatten_parts (PList ps) = py_join [LF] (concat (map collect_chunk ps))
   \<and> py_join [LF] (map PStr ss) = Inr (join [LF] ss)"
proof -
  have "flatten_parts (PList ps) = py_join [LF] (concat (map collect_chunk ps))"
    by (cases ps) (simp_all add: flatten_parts_def py_or_def iter_values_def)
  moreover have "py_join [LF] (map PStr ss) = Inr (join [LF] ss)"
    by (simp add: py_join_def as_strs_PStr)
  moreover have "(\<exists>c \<in> set s. \<not> is_space c) \<longrightarrow> collect_chunk (PStr s) = [PStr s]"
    using strip_Nil_iff [of s] by (auto simp: collect_chunk_def)
  moreover have "(\<forall>c \<in> set s. is_space c) \<longrightarrow> collect_chunk (PStr s) = []"
    using strip_Nil_iff [of s] by (simp add: collect_chunk_def)
  ultimately show ?thesis by (simp add: collect_chunk_def)
qed

text \<open>
  A part that is the one-space string is a plain non-empty string, yet line 124 tests
  \<open>p.strip()\<close> and appends nothing for it: the parts \<open>[" ", "a"]\<close> flatten to \<open>"a"\<close>,
  where taking every non-empty string would give \<open>" \na"\<close>.
\<close>

theorem flatten_whitespace_counterexample:
  "u '' '' \<noteq> []
   \<and> spec_chunk (PStr (u '' '')) = [PStr (u '' '')]
   \<and> collect_chunk (PStr (u '' '')) = []
   \<and> flatten_parts (PList [PStr (u '' ''), PStr (u ''a'')]) = Inr (u ''a'')
   \<and> py_join [LF] (concat (map spec_chunk [PStr (u '' ''), PStr (u ''a'')])) = Inr (u '' \<newline>a'')"
  by (simp add: spec_chunk_def collect_chunk_def flatten_parts_def py_or_def iter_values_def
      py_join_def strip_def is_space_def u_def LF_def)

theorem flatten_chunks_witness:
  "list_ex (\<lambda>c. \<not> is_space c) (u ''Hello'') \<and> list_all is_space (u ''  '')
   \<and> collect_chunk (PStr (u ''Hello'')) = [PStr (u ''Hello'')]
   \<and> collect_chunk (PStr (u ''  '')) = []
   \<and> collect_chunk (PDict [(u ''text'', PStr (u ''world''))]) = [PStr (u ''world'')]
   \<and> collect_chunk (PDict [(u ''text'', PStr [])]) = []
   \<and> flatten_parts (PList [PStr (u ''Hello''), PStr (u ''  ''), PDict [(u ''text'', PStr (u ''world''))],
        PInt 7, PDict [(u ''text'', PStr [])]]) = Inr (u ''Hello\<newline>world'')"
proof -
  have a: "\<exists>c \<in> set (u ''Hello''). \<not> is_space c" by (simp add: u_def is_space_def)
  have b: "\<forall>c \<in> set (u ''  ''). is_space c" by (simp add: u_def is_space_def)
  have c: "truthy (dict_get [(u ''text'', PStr (u ''world''))] (u ''text''))"
    by (simp add: dict_get_def u_def)
  have d: "\<not> truthy (dict_get [(u ''text'', PStr [])] (u ''text''))"
    by (simp add: dict_get_def u_def)
  have e: "dict_get [(u ''text'', PStr (u ''world''))] (u ''text'') = PStr (u ''world'')"
    by (simp add: dict_get_def)
  note f = flatten_chunks [of "u ''Hello''" "[(u ''text'', PStr (u ''world''))]" True 7 "[]"
      "[PStr (u ''Hello''), PStr (u ''  ''), PDict [(u ''text'', PStr (u ''world''))],
        PInt 7, PDict [(u ''text'', PStr [])]]" "[u ''Hello'', u ''world'']"]
  note g = flatten_chunks [of "u ''  ''" "[(u ''text'', PStr [])]" True 7 "[]" "[]" "[]"]
  have c1: "collect_chunk (PStr (u ''Hello'')) = [PStr (u ''Hello'')]" using f a by blast
  have c2: "collect_chunk (PStr (u ''  '')) = []" using g b by blast
  have c3: "collect_chunk (PDict [(u ''text'', PStr (u ''world''))]) = [PStr (u ''world'')]"
    using f c e by simp
  have c4: "collect_chunk (PDict [(u ''text'', PStr [])]) = []" using g d by blast
  have c5: "collect_chunk (PInt 7) = []" using f by blast
  have "flatten_parts (PList [PStr (u ''Hello''), PStr (u ''  ''), PDict [(u ''text'', PStr (u ''world''))],
        PInt 7, PDict [(u ''text'', PStr [])]]) = py_join [LF] (map PStr [u ''Hello'', u ''world''])"
    using f by (simp add: c1 c2 c3 c4 c5)
  also have "\<dots> = Inr (join [LF] [u ''Hello'', u ''world''])" using f by blast
  also have "\<dots> = Inr (u ''Hello\<newline>world'')" by (simp add: u_def LF_def)
  finally have c6: "flatten_parts (PList [PStr (u ''Hello''), PStr (u ''  ''),
      PDict [(u ''text'', PStr (u ''world''))], PInt 7, PDict [(u ''text'', PStr [])]])
      = Inr (u ''Hello\<newline>world'')" .
  show ?thesis using a b c1 c2 c3 c4 c6 by (simp add: list_ex_iff list_all_iff)
qed

subsection \<open>The traversal\<close>

lemma py_eq_PStr_left: "py_eq (PStr k) v \<longleftrightarrow> v = PStr k"
  by (cases v) auto

lemma in_seen_PStr: "in_seen (PStr k) seen = Inr (PStr k \<in> set seen)"
  by (auto simp: in_seen_def list_ex_iff py_eq_PStr_left)

lemma walk_stop: "\<not> truthy current \<Longrightarrow> walk mapping current seen nodes = Inr (seen, nodes)"
  by (subst walk.simps) simp

lemma walk_absent:
  "map_of d k = None \<Longrightarrow> walk (PDict d) (PStr k) seen nodes = Inr (seen, nodes)"
  by (subst walk.simps) (simp add: py_contains_def)

lemma walk_seen:
  "PStr k \<in> set seen \<Longrightarrow> walk (PDict d) (PStr k) seen nodes = Inr (seen, nodes)"
  by (subst walk.simps) (simp add: py_contains_def in_seen_PStr)

lemma walk_next:
  "k \<noteq> [] \<Longrightarrow> map_of d k = Some (PDict nd) \<Longrightarrow> PStr k \<notin> set seen \<Longrightarrow>
   walk (PDict d) (PStr k) seen nodes
     = walk (PDict d) (dict_get nd (u ''parent'')) (PStr k # seen) (nodes @ [PDict nd])"
  by (subst walk.simps)
     (simp add: py_contains_def in_seen_PStr py_getitem_def py_get_def dict_get_def)

lemma walk_not_key:
  "hashable current \<Longrightarrow> \<not> is_str current \<Longrightarrow>
   walk (PDict d) current seen nodes = Inr (seen, nodes)"
  by (subst walk.simps) (cases current, simp_all add: py_contains_def)

lemma linked_lookup:
  assumes "linked_mapping d" "map_of d k = Some node"
  shows "\<exists>nd. node = PDict nd \<and> hashable (dict_get nd (u ''parent''))"
proof -
  have "(k, node) \<in> set d" using assms(2) by (rule map_of_SomeD)
  then have "linked_node node" using assms(1) by (auto simp: linked_mapping_def list_all_iff)
  then show ?thesis by (cases node) (simp_all add: linked_node_def)
qed

lemma visits_step:
  assumes "visits d seen nodes" "map_of d k = Some node" "PStr k \<notin> set seen"
  shows "visits d (PStr k # seen) (nodes @ [node])"
  using assms by (simp add: visits_def node_of_def list_all2_appendI)

lemma walk_linked:
  assumes d: "linked_mapping d"
  shows "hashable current \<Longrightarrow> visits d seen0 nodes0 \<Longrightarrow>
    \<exists>seen nodes. walk (PDict d) current seen0 nodes0 = Inr (seen, nodes) \<and> visits d seen nodes"
proof (induction "PDict d" current seen0 nodes0 rule: walk.induct)
  case (1 current seen0 nodes0)
  show ?case
  proof (cases "is_str current")
    case False
    then have "walk (PDict d) current seen0 nodes0 = Inr (seen0, nodes0)"
      using "1.prems"(1) by (simp add: walk_not_key)
    then show ?thesis using "1.prems"(2) by blast
  next
    case True
    then obtain k where PStr: "current = PStr k" by (cases current) simp_all
    show ?thesis
    proof (cases "k = [] \<or> map_of d k = None \<or> PStr k \<in> set seen0")
      case True
      then have "walk (PDict d) current seen0 nodes0 = Inr (seen0, nodes0)"
        unfolding PStr using walk_stop [of "PStr k"] walk_absent walk_seen by auto
      then show ?thesis using "1.prems"(2) by blast
    next
      case False
      then obtain node where k: "k \<noteq> []" "map_of d k = Some node" "PStr k \<notin> set seen0" by auto
      obtain nd where nd: "node = PDict nd" "hashable (dict_get nd (u ''parent''))"
        using linked_lookup [OF d k(2)] by blast
      have v: "visits d (PStr k # seen0) (nodes0 @ [node])"
        using "1.prems"(2) k(2,3) by (rule visits_step)
      have "\<exists>seen nodes. walk (PDict d) (dict_get nd (u ''parent'')) (current # seen0) (nodes0 @ [node])
          = Inr (seen, nodes) \<and> visits d seen nodes"
      proof (rule "1.hyps")
        show "\<not> \<not> truthy current" using k(1) PStr by simp
        show "py_contains current (PDict d) = Inr True" using PStr k(2) by (simp add: py_contains_def)
        show "\<not> \<not> True" by simp
        show "in_seen current seen0 = Inr False" using PStr k(3) by (simp add: in_seen_PStr)
        show "\<not> False" by simp
        show "py_getitem (PDict d) current = Inr node" using PStr k(2) by (simp add: py_getitem_def)
        show "py_get node (u ''parent'') PNone = Inr (dict_get nd (u ''parent''))"
          using nd(1) by (simp add: py_get_def dict_get_def)
        show "hashable (dict_get nd (u ''parent''))" by (rule nd(2))
        show "visits d (current # seen0) (nodes0 @ [node])" using v PStr by simp
      qed
      then show ?thesis unfolding PStr nd(1) walk_next [OF k(1) k(2) [unfolded nd(1)] k(3)] .
    qed
  qed
qed


lemma visits_bound:
  assumes "visits d seen nodes"
  shows "length nodes = length seen \<and> length seen \<le> length d"
proof -
  have l: "list_all2 (node_of d) (rev seen) nodes" and di: "distinct seen"
    using assms by (simp_all add: visits_def)
  have len: "length nodes = length seen" using list_all2_lengthD [OF l] by simp
  have "set seen \<subseteq> (\<lambda>kv. PStr (fst kv)) ` set d"
  proof
    fix v assume "v \<in> set seen"
    then have "v \<in> set (rev seen)" by simp
    then obtain i where i: "i < length (rev seen)" "rev seen ! i = v" by (metis in_set_conv_nth)
    then have "node_of d v (nodes ! i)" using list_all2_nthD [OF l i(1)] by simp
    then obtain k where k: "v = PStr k" "map_of d k = Some (nodes ! i)"
      by (cases v) (simp_all add: node_of_def)
    then have "(k, nodes ! i) \<in> set d" by (intro map_of_SomeD)
    then show "v \<in> (\<lambda>kv. PStr (fst kv)) ` set d" using k(1) by force
  qed
  then have "card (set seen) \<le> card ((\<lambda>kv. PStr (fst kv)) ` set d)" by (intro card_mono) simp_all
  also have "\<dots> \<le> card (set d)" by (intro card_image_le) simp
  also have "\<dots> \<le> length d" by (rule card_length)
  finally have "length seen \<le> length d" using distinct_card [OF di] by simp
  then show ?thesis using len by simp
qed

text \<open>
  Claim C5. For every mapping whose nodes are dicts with a \<open>parent\<close> that is absent or can
  be hashed, and every starting value that can be hashed (an identifier or \<open>None\<close> in
  particular), whether or not the parent links form a cycle, the traversal returns: it
  raises nothing, no identifier is in \<open>seen\<close> twice, \<open>ordered_nodes\<close> holds the nodes of
  the identifiers seen, one for each and in the order of the visits, and there are at
  most as many of them as the mapping has entries.
\<close>

theorem traversal_terminates_without_revisit:
  assumes "linked_mapping d" and "hashable current"
  shows "\<exists>seen nodes. walk (PDict d) current [] [] = Inr (seen, nodes)
     \<and> distinct seen \<and> list_all2 (node_of d) (rev seen) nodes
     \<and> length nodes = length seen \<and> length seen \<le> length d"
proof -
  have "visits d [] []" by (simp add: visits_def)
  with assms obtain seen nodes where w: "walk (PDict d) current [] [] = Inr (seen, nodes)"
    and v: "visits d seen nodes"
    using walk_linked by blast
  have "length nodes = length seen \<and> length seen \<le> length d" using v by (rule visits_bound)
  then show ?thesis using w v unfolding visits_def by blast
qed

theorem traversal_terminates_without_revisit_witness:
  "linked_mapping [(u ''A'', PDict [(u ''parent'', PStr (u ''B''))]),
                   (u ''B'', PDict [(u ''parent'', PStr (u ''A''))])]
   \<and> hashable (PStr (u ''A''))
   \<and> walk (PDict [(u ''A'', PDict [(u ''parent'', PStr (u ''B''))]),
                   (u ''B'', PDict [(u ''parent'', PStr (u ''A''))])]) (PStr (u ''A'')) [] []
       = Inr ([PStr (u ''B''), PStr (u ''A'')],
              [PDict [(u ''parent'', PStr (u ''B''))], PDict [(u ''parent'', PStr (u ''A''))]])
   \<and> distinct [PStr (u ''B''), PStr (u ''A'')]"
proof -
  let ?d = "[(u ''A'', PDict [(u ''parent'', PStr (u ''B''))]),
             (u ''B'', PDict [(u ''parent'', PStr (u ''A''))])]"
  have l: "linked_mapping ?d" by (simp add: linked_mapping_def linked_node_def dict_get_def)
  have i: "hashable (PStr (u ''A''))" by simp
  have ab: "u ''A'' \<noteq> u ''B''" "u ''A'' \<noteq> []" "u ''B'' \<noteq> []" by (simp_all add: u_def)
  have p: "dict_get [(u ''parent'', PStr (u ''B''))] (u ''parent'') = PStr (u ''B'')"
    "dict_get [(u ''parent'', PStr (u ''A''))] (u ''parent'') = PStr (u ''A'')"
    by (simp_all add: dict_get_def)
  have "walk (PDict ?d) (PStr (u ''A'')) [] []
      = walk (PDict ?d) (PStr (u ''B'')) [PStr (u ''A'')] [PDict [(u ''parent'', PStr (u ''B''))]]"
    using ab by (subst walk_next [where nd = "[(u ''parent'', PStr (u ''B''))]"]) (simp_all add: p)
  also have "\<dots> = walk (PDict ?d) (PStr (u ''A'')) [PStr (u ''B''), PStr (u ''A'')]
      [PDict [(u ''parent'', PStr (u ''B''))], PDict [(u ''parent'', PStr (u ''A''))]]"
    using ab by (subst walk_next [where nd = "[(u ''parent'', PStr (u ''A''))]"]) (simp_all add: p)
  also have "\<dots> = Inr ([PStr (u ''B''), PStr (u ''A'')],
      [PDict [(u ''parent'', PStr (u ''B''))], PDict [(u ''parent'', PStr (u ''A''))]])"
    by (rule walk_seen) simp
  finally have w: "walk (PDict ?d) (PStr (u ''A'')) [] []
      = Inr ([PStr (u ''B''), PStr (u ''A'')],
         [PDict [(u ''parent'', PStr (u ''B''))], PDict [(u ''parent'', PStr (u ''A''))]])" .
  have "distinct [PStr (u ''B''), PStr (u ''A'')]"
    using traversal_terminates_without_revisit [OF l i] unfolding w by simp
  then show ?thesis using l i w by blast
qed

subsection \<open>Completion of the extractor\<close>






















end
